theory Spec2Isabelle
  imports Main "HOL-Library.Word"
begin

unbundle bit_operations_syntax

section \<open>Common types\<close>

text \<open>Python \<open>bytes\<close> are sequences of integers in \<open>range(256)\<close>; Python \<open>str\<close> is a
  sequence of Unicode code points, which the 8-bit HOL \<open>char\<close> cannot hold, so a text is
  the list of its code points.\<close>

type_synonym byte = "8 word"
type_synonym bytes = "byte list"
type_synonym pystr = "nat list"

datatype error =
    InvalidThumbnailLength   \<comment> \<open>ValueError: g_features must be 64 or 128 bytes (int8) or None\<close>
  | NegativeVarint           \<comment> \<open>ValueError: uvarint cannot encode negative values\<close>
  | TruncatedVarint          \<comment> \<open>ValueError: uvarint: truncated input\<close>
  | VarintTooLarge           \<comment> \<open>ValueError: uvarint: value too large\<close>
  | InvalidMagic             \<comment> \<open>ValueError: Invalid magic; not a .pgraph single-graph payload\<close>
  | TruncatedFeatures        \<comment> \<open>ValueError: Truncated g_features\<close>
  | IndexError               \<comment> \<open>IndexError: index out of range\<close>

section \<open>Graph core (graph\_builder.py)\<close>

record Node =
  node_id :: int
  n_type :: int
  sub_type :: int
  features_ref :: int
  span :: "int \<times> int"
  n_flags :: int
  n_confidence :: int
  label_id :: int

record Edge =
  src_id :: int
  dst_id :: int
  e_type :: int
  weight :: int
  time :: int
  e_flags :: int
  e_confidence :: int
  attr_ref :: int

text \<open>The list \<open>g.nodes\<close> holds Node objects. Where only their values matter (the builder,
  the codec) the list is a list of node values; \<open>annotate_graph\<close> writes into the objects,
  so there the list is a list of their addresses in a store of Node objects.\<close>

record 'n Graph_of =
  graph_id :: int
  graph_type :: int
  num_nodes :: int
  num_edges :: int
  g_features :: "bytes option"
  source_id :: int
  version :: int
  schema_id :: int
  nodes :: "'n list"
  edges :: "Edge list"

type_synonym Graph = "Node Graph_of"




subsection \<open>GraphBuilder\<close>

record GraphBuilder =
  gb_graph_id :: int
  gb_graph_type :: int
  gb_source_id :: int
  gb_version :: int
  gb_schema_id :: int
  gb_nodes :: "Node list"
  gb_edges :: "Edge list"
  gb_features :: "bytes option"

text \<open>\<open>GraphBuilder.__init__\<close> with its defaults: schema WRITING = 1, type HETERO = 5,
  source 0, version 1, no thumbnail.\<close>

definition GraphBuilder_init :: "int \<Rightarrow> GraphBuilder" where
  "GraphBuilder_init gid =
     \<lparr>gb_graph_id = gid, gb_graph_type = 5, gb_source_id = 0, gb_version = 1,
      gb_schema_id = 1, gb_nodes = [], gb_edges = [], gb_features = None\<rparr>"

text \<open>\<open>set_thumbnail\<close> mutates the builder or raises before the assignment; the model
  returns the outcome together with the builder as it is after the call.\<close>

definition set_thumbnail ::
  "bytes option \<Rightarrow> GraphBuilder \<Rightarrow> (error + unit) \<times> GraphBuilder" where
  "set_thumbnail features gb =
     (if features \<noteq> None \<and> length (the features) \<notin> {64, 128}
      then (Inl InvalidThumbnailLength, gb)
      else (Inr (), gb\<lparr>gb_features := features\<rparr>))"


subsection \<open>Varint utilities\<close>

text \<open>The loop of \<open>_uvarint_encode\<close>, entered with a value that is not negative: it emits
  the low seven bits and shifts, setting the continuation bit while a remainder is left.\<close>

function uvarint_encode_loop :: "nat \<Rightarrow> bytes" where
  "uvarint_encode_loop v =
     (let b = v AND 0x7F;
          v' = drop_bit 7 v
      in if v' \<noteq> 0 then of_nat (b OR 0x80) # uvarint_encode_loop v'
         else [of_nat b])"
  by pat_completeness auto
termination
proof (relation "measure id")
  fix v b v' :: nat
  assume "v' = drop_bit 7 v" and "v' \<noteq> 0"
  then have "v' < v" by (simp add: drop_bit_eq_div)
  then show "(v', v) \<in> measure id" by simp
qed simp

declare uvarint_encode_loop.simps [simp del]

definition uvarint_encode :: "int \<Rightarrow> error + bytes" where
  "uvarint_encode v = (if v < 0 then Inl NegativeVarint else Inr (uvarint_encode_loop (nat v)))"

text \<open>The loop of \<open>_uvarint_decode\<close> on the state \<open>(i, shift, value)\<close>.\<close>

function uvarint_decode_loop :: "bytes \<Rightarrow> nat \<Rightarrow> nat \<Rightarrow> nat \<Rightarrow> error + (nat \<times> nat)" where
  "uvarint_decode_loop buf i shift v =
     (if i \<ge> length buf then Inl TruncatedVarint
      else
        (let b = unat (buf ! i);
             i' = i + 1;
             v' = v OR push_bit shift (b AND 0x7F)
         in if b AND 0x80 = 0 then Inr (v', i')
            else
              (let shift' = shift + 7
               in if shift' > 63 then Inl VarintTooLarge
                  else uvarint_decode_loop buf i' shift' v')))"
  by pat_completeness auto
termination
  by (relation "measure (\<lambda>(buf, i, shift, v). length buf - i)") auto

declare uvarint_decode_loop.simps [simp del]

definition uvarint_decode :: "bytes \<Rightarrow> nat \<Rightarrow> error + (int \<times> nat)" where
  "uvarint_decode buf offset =
     (case uvarint_decode_loop buf offset 0 0 of
        Inl e \<Rightarrow> Inl e
      | Inr (v, i) \<Rightarrow> Inr (int v, i))"

subsection \<open>The .pgraph codec\<close>

text \<open>Sequencing of fallible steps: the first \<open>Inl\<close> is the exception that leaves the
  function.\<close>

definition ebind :: "'e + 'a \<Rightarrow> ('a \<Rightarrow> 'e + 'b) \<Rightarrow> 'e + 'b" where
  "ebind m f = (case m of Inl e \<Rightarrow> Inl e | Inr x \<Rightarrow> f x)"

text \<open>The output buffer \<open>out\<close> of \<open>encode_pgraph\<close> receives its pieces in order; a piece
  that raises ends the call.\<close>

fun seq_bytes :: "(error + bytes) list \<Rightarrow> error + bytes" where
  "seq_bytes [] = Inr []"
| "seq_bytes (p # ps) = ebind p (\<lambda>a. ebind (seq_bytes ps) (\<lambda>b. Inr (a @ b)))"

definition PG_MAGIC :: bytes where
  "PG_MAGIC = [80, 71, 82, 65]"

text \<open>\<open>out.append(x & 0xFF)\<close> and \<open>(x & 0xFFFF).to_bytes(2, "little")\<close>.\<close>

definition u8 :: "int \<Rightarrow> byte" where
  "u8 x = word_of_int (x AND 0xFF)"

definition u16_le :: "int \<Rightarrow> bytes" where
  "u16_le x = (let v = x AND 0xFFFF in [word_of_int (v AND 0xFF), word_of_int (drop_bit 8 v AND 0xFF)])"

definition encode_node :: "Node \<Rightarrow> error + bytes" where
  "encode_node n = seq_bytes
     [uvarint_encode (node_id n),
      Inr [u8 (n_type n)],
      Inr [u8 (sub_type n)],
      uvarint_encode (features_ref n),
      uvarint_encode (fst (span n)),
      uvarint_encode (snd (span n)),
      Inr (u16_le (n_flags n)),
      Inr [u8 (n_confidence n)],
      uvarint_encode (label_id n)]"

definition encode_edge :: "Edge \<Rightarrow> error + bytes" where
  "encode_edge e = seq_bytes
     [uvarint_encode (src_id e),
      uvarint_encode (dst_id e),
      Inr [u8 (e_type e)],
      Inr [u8 (weight e)],
      uvarint_encode (time e),
      Inr (u16_le (e_flags e)),
      Inr [u8 (e_confidence e)],
      uvarint_encode (attr_ref e)]"

definition encode_pgraph :: "Graph \<Rightarrow> error + bytes" where
  "encode_pgraph g = seq_bytes
     ([Inr PG_MAGIC,
       uvarint_encode (graph_id g),
       Inr [u8 (graph_type g)],
       uvarint_encode (num_nodes g),
       uvarint_encode (num_edges g),
       uvarint_encode (source_id g),
       uvarint_encode (version g),
       Inr [u8 (schema_id g)]]
      @ map encode_node (nodes g)
      @ map encode_edge (edges g)
      @ (let feat = (case g_features g of None \<Rightarrow> [] | Some bs \<Rightarrow> bs)
         in [uvarint_encode (int (length feat)), Inr feat]))"

text \<open>The reads of \<open>decode_pgraph\<close>: \<open>buf[i]\<close> raises IndexError past the end;
  the slice \<open>buf[i:i+2]\<close> never raises and \<open>int.from_bytes\<close> takes what it gets.\<close>

definition read_u8 :: "bytes \<Rightarrow> nat \<Rightarrow> error + (int \<times> nat)" where
  "read_u8 buf i = (if i < length buf then Inr (uint (buf ! i), i + 1) else Inl IndexError)"

fun from_bytes_le :: "bytes \<Rightarrow> int" where
  "from_bytes_le [] = 0"
| "from_bytes_le (b # bs) = uint b + 256 * from_bytes_le bs"

definition read_u16 :: "bytes \<Rightarrow> nat \<Rightarrow> int \<times> nat" where
  "read_u16 buf i = (from_bytes_le (take 2 (drop i buf)), i + 2)"

definition decode_node :: "bytes \<Rightarrow> nat \<Rightarrow> error + (Node \<times> nat)" where
  "decode_node buf i =
     ebind (uvarint_decode buf i) (\<lambda>(node_id', i).
     ebind (read_u8 buf i) (\<lambda>(n_type', i).
     ebind (read_u8 buf i) (\<lambda>(sub_type', i).
     ebind (uvarint_decode buf i) (\<lambda>(features_ref', i).
     ebind (uvarint_decode buf i) (\<lambda>(span0, i).
     ebind (uvarint_decode buf i) (\<lambda>(span1, i).
     (case read_u16 buf i of (flags', i) \<Rightarrow>
     ebind (read_u8 buf i) (\<lambda>(confidence', i).
     ebind (uvarint_decode buf i) (\<lambda>(label_id', i).
     Inr (\<lparr>node_id = node_id', n_type = n_type', sub_type = sub_type',
           features_ref = features_ref', span = (span0, span1), n_flags = flags',
           n_confidence = confidence', label_id = label_id'\<rparr>, i))))))))))"

definition decode_edge :: "bytes \<Rightarrow> nat \<Rightarrow> error + (Edge \<times> nat)" where
  "decode_edge buf i =
     ebind (uvarint_decode buf i) (\<lambda>(src_id', i).
     ebind (uvarint_decode buf i) (\<lambda>(dst_id', i).
     ebind (read_u8 buf i) (\<lambda>(e_type', i).
     ebind (read_u8 buf i) (\<lambda>(weight', i).
     ebind (uvarint_decode buf i) (\<lambda>(time', i).
     (case read_u16 buf i of (flags', i) \<Rightarrow>
     ebind (read_u8 buf i) (\<lambda>(confidence', i).
     ebind (uvarint_decode buf i) (\<lambda>(attr_ref', i).
     Inr (\<lparr>src_id = src_id', dst_id = dst_id', e_type = e_type', weight = weight',
           time = time', e_flags = flags', e_confidence = confidence',
           attr_ref = attr_ref'\<rparr>, i)))))))))"

text \<open>The two loops \<open>for _ in range(num_nodes)\<close> and \<open>for _ in range(num_edges)\<close>, by the
  number of iterations left.\<close>

fun decode_nodes :: "bytes \<Rightarrow> nat \<Rightarrow> nat \<Rightarrow> Node list \<Rightarrow> error + (Node list \<times> nat)" where
  "decode_nodes buf 0 i ns = Inr (ns, i)"
| "decode_nodes buf (Suc c) i ns =
     ebind (decode_node buf i) (\<lambda>(n, i). decode_nodes buf c i (ns @ [n]))"

fun decode_edges :: "bytes \<Rightarrow> nat \<Rightarrow> nat \<Rightarrow> Edge list \<Rightarrow> error + (Edge list \<times> nat)" where
  "decode_edges buf 0 i es = Inr (es, i)"
| "decode_edges buf (Suc c) i es =
     ebind (decode_edge buf i) (\<lambda>(e, i). decode_edges buf c i (es @ [e]))"

definition decode_features :: "bytes \<Rightarrow> nat \<Rightarrow> error + (bytes option \<times> nat)" where
  "decode_features buf i =
     ebind (uvarint_decode buf i) (\<lambda>(feat_len, i).
       if feat_len \<noteq> 0 then
         (let g_features' = take (nat feat_len) (drop i buf)
          in if int (length g_features') \<noteq> feat_len then Inl TruncatedFeatures
             else Inr (Some g_features', i + nat feat_len))
       else Inr (None, i))"

text \<open>\<open>decode_pgraph\<close> with the final value of its offset \<open>i\<close>.\<close>

definition decode_pgraph_at :: "bytes \<Rightarrow> error + (Graph \<times> nat)" where
  "decode_pgraph_at buf =
     (if take 4 buf \<noteq> PG_MAGIC then Inl InvalidMagic
      else
        ebind (uvarint_decode buf 4) (\<lambda>(graph_id', i).
        ebind (read_u8 buf i) (\<lambda>(graph_type', i).
        ebind (uvarint_decode buf i) (\<lambda>(num_nodes', i).
        ebind (uvarint_decode buf i) (\<lambda>(num_edges', i).
        ebind (uvarint_decode buf i) (\<lambda>(source_id', i).
        ebind (uvarint_decode buf i) (\<lambda>(version', i).
        ebind (read_u8 buf i) (\<lambda>(schema_id', i).
        ebind (decode_nodes buf (nat num_nodes') i []) (\<lambda>(nodes', i).
        ebind (decode_edges buf (nat num_edges') i []) (\<lambda>(edges', i).
        ebind (decode_features buf i) (\<lambda>(g_features', i).
        Inr (\<lparr>graph_id = graph_id', graph_type = graph_type',
              num_nodes = int (length nodes'), num_edges = int (length edges'),
              g_features = g_features', source_id = source_id', version = version',
              schema_id = schema_id', nodes = nodes', edges = edges'\<rparr>, i))))))))))))"

definition decode_pgraph :: "bytes \<Rightarrow> error + Graph" where
  "decode_pgraph buf = (case decode_pgraph_at buf of Inl e \<Rightarrow> Inl e | Inr (g, i) \<Rightarrow> Inr g)"

section \<open>Tokenizer (tokenizer.py)\<close>

record Token =
  t_idx :: int
  t_text :: pystr
  t_start :: int
  t_end :: int
  t_flags :: int


definition TF_CAP :: int where "TF_CAP = push_bit 0 1"
definition TF_PUNCT :: int where "TF_PUNCT = push_bit 1 1"
definition TF_NUM :: int where "TF_NUM = push_bit 2 1"
definition TF_SENT_END_STRONG :: int where "TF_SENT_END_STRONG = push_bit 3 1"
definition TF_SENT_END_WEAK :: int where "TF_SENT_END_WEAK = push_bit 4 1"

text \<open>Truth value of the Python expression \<open>flags & F\<close>.\<close>

definition has_flag :: "int \<Rightarrow> int \<Rightarrow> bool" where
  "has_flag flags f \<longleftrightarrow> flags AND f \<noteq> 0"

text \<open>The two spellings of the ellipsis: U+2026 and three full stops.\<close>

definition ELLIPSIS_CHAR :: pystr where "ELLIPSIS_CHAR = [8230]"
definition THREE_DOTS :: pystr where "THREE_DOTS = [46, 46, 46]"


subsection \<open>Character tables and classes\<close>

text \<open>The Unicode tables behind \<open>\s\<close>, \<open>str.isdigit\<close>, \<open>str.isalpha\<close> and
  \<open>str.isupper\<close> belong to the Python runtime, not to the repository: the tokenizer takes
  them as a parameter.\<close>

record unicode_tables =
  isspace :: "nat \<Rightarrow> bool"
  isdigit :: "nat \<Rightarrow> bool"
  isalpha :: "nat \<Rightarrow> bool"
  isupper :: "nat \<Rightarrow> bool"

text \<open>The character classes that the patterns spell out: \<open>[A-Za-z0-9]\<close>, \<open>[A-Za-z]\<close>,
  \<open>[A-Za-z0-9._%+\-]\<close>, \<open>[A-Za-z0-9.\-]\<close>, \<open>[A-Za-z0-9_]\<close>, the joiners
  \<open>[\<close>U+2019\<open>'\-]\<close> of a word, and the class of \<open>_PUNCT\<close>.\<close>

definition is_AZaz09 :: "nat \<Rightarrow> bool" where
  "is_AZaz09 c \<longleftrightarrow> (65 \<le> c \<and> c \<le> 90) \<or> (97 \<le> c \<and> c \<le> 122) \<or> (48 \<le> c \<and> c \<le> 57)"

definition is_AZaz :: "nat \<Rightarrow> bool" where
  "is_AZaz c \<longleftrightarrow> (65 \<le> c \<and> c \<le> 90) \<or> (97 \<le> c \<and> c \<le> 122)"

definition in_email_local :: "nat \<Rightarrow> bool" where
  "in_email_local c \<longleftrightarrow> is_AZaz09 c \<or> c = 46 \<or> c = 95 \<or> c = 37 \<or> c = 43 \<or> c = 45"

definition in_email_domain :: "nat \<Rightarrow> bool" where
  "in_email_domain c \<longleftrightarrow> is_AZaz09 c \<or> c = 46 \<or> c = 45"

definition in_handle :: "nat \<Rightarrow> bool" where
  "in_handle c \<longleftrightarrow> is_AZaz09 c \<or> c = 95"

definition is_joiner :: "nat \<Rightarrow> bool" where
  "is_joiner c \<longleftrightarrow> c = 8217 \<or> c = 39 \<or> c = 45"

definition in_PUNCT :: "nat \<Rightarrow> bool" where
  "in_PUNCT c \<longleftrightarrow> c \<in> {46, 44, 63, 33, 59, 58, 40, 41, 91, 93, 123, 125, 34,
                      8220, 8221, 8216, 8217, 8212, 8211, 45}"

subsection \<open>The alternatives of the master pattern\<close>

text \<open>No alternative looks behind the position it is tried at, so a match attempt is a
  function of the rest of the text from that position; it yields the length of the match.
  Every quantifier is greedy, and the only place where the engine has to give characters
  back is the domain of an e-mail address.\<close>

datatype kind = URL | EMAIL | HANDLE | ELLIPSIS | WORD | PUNCT | WS

text \<open>A literal prefix followed by \<open>\S+\<close>.\<close>

definition lit_nonspace :: "unicode_tables \<Rightarrow> pystr \<Rightarrow> pystr \<Rightarrow> nat option" where
  "lit_nonspace U lit cs =
     (let run = takeWhile (\<lambda>c. \<not> isspace U c) (drop (length lit) cs)
      in if take (length lit) cs = lit \<and> run \<noteq> [] then Some (length lit + length run)
         else None)"

text \<open>\<open>https?://\S+|www\.\S+\<close>, with the optional \<open>s\<close> tried first.\<close>

definition match_URL :: "unicode_tables \<Rightarrow> pystr \<Rightarrow> nat option" where
  "match_URL U cs =
     (case lit_nonspace U [104, 116, 116, 112, 115, 58, 47, 47] cs of
        Some n \<Rightarrow> Some n
      | None \<Rightarrow>
          (case lit_nonspace U [104, 116, 116, 112, 58, 47, 47] cs of
             Some n \<Rightarrow> Some n
           | None \<Rightarrow> lit_nonspace U [119, 119, 119, 46] cs))"

text \<open>The part \<open>[A-Za-z0-9.\-]+\.[A-Za-z]{2,}\<close> of an e-mail address on the text after
  the \<open>@\<close>: the domain run is tried at its longest and then shortened one character at a
  time, down to one character, until a full stop and at least two letters follow.\<close>

fun email_domain :: "pystr \<Rightarrow> nat \<Rightarrow> nat option" where
  "email_domain rest 0 = None"
| "email_domain rest (Suc l) =
     (let tld = takeWhile is_AZaz (drop (Suc (Suc l)) rest)
      in if Suc l < length rest \<and> rest ! Suc l = 46 \<and> 2 \<le> length tld
         then Some (Suc l + 1 + length tld)
         else email_domain rest l)"

definition match_EMAIL :: "pystr \<Rightarrow> nat option" where
  "match_EMAIL cs =
     (let local = takeWhile in_email_local cs
      in if local = [] then None
         else
           (case drop (length local) cs of
              [] \<Rightarrow> None
            | c # rest \<Rightarrow>
                if c = 64 then
                  (case email_domain rest (length (takeWhile in_email_domain rest)) of
                     None \<Rightarrow> None
                   | Some m \<Rightarrow> Some (length local + 1 + m))
                else None))"

definition match_HANDLE :: "pystr \<Rightarrow> nat option" where
  "match_HANDLE cs =
     (case cs of
        [] \<Rightarrow> None
      | c # rest \<Rightarrow>
          if (c = 64 \<or> c = 35) \<and> takeWhile in_handle rest \<noteq> []
          then Some (1 + length (takeWhile in_handle rest))
          else None)"

definition match_ELLIPSIS :: "pystr \<Rightarrow> nat option" where
  "match_ELLIPSIS cs =
     (if take 1 cs = [8230] then Some 1
      else if take 3 cs = [46, 46, 46] then Some 3
      else None)"

text \<open>The repeated group \<open>(?:[\<close>U+2019\<open>'\-][A-Za-z0-9]+)*\<close> of a word.\<close>

function word_tail :: "pystr \<Rightarrow> nat" where
  "word_tail cs =
     (case cs of
        [] \<Rightarrow> 0
      | c # rest \<Rightarrow>
          if is_joiner c \<and> takeWhile is_AZaz09 rest \<noteq> []
          then 1 + length (takeWhile is_AZaz09 rest)
                 + word_tail (drop (length (takeWhile is_AZaz09 rest)) rest)
          else 0)"
  by pat_completeness auto
termination
  by (relation "measure length") auto

declare word_tail.simps [simp del]

definition match_WORD :: "pystr \<Rightarrow> nat option" where
  "match_WORD cs =
     (let run = takeWhile is_AZaz09 cs
      in if run = [] then None
         else Some (length run + word_tail (drop (length run) cs)))"

definition match_PUNCT :: "pystr \<Rightarrow> nat option" where
  "match_PUNCT cs = (case cs of [] \<Rightarrow> None | c # rest \<Rightarrow> if in_PUNCT c then Some 1 else None)"

definition match_WS :: "unicode_tables \<Rightarrow> pystr \<Rightarrow> nat option" where
  "match_WS U cs =
     (let run = takeWhile (isspace U) cs in if run = [] then None else Some (length run))"

text \<open>\<open>_MASTER\<close>: the first alternative that matches at the position, in the order of the
  pattern, with the name of its group (\<open>m.lastgroup\<close>).\<close>

definition match_master :: "unicode_tables \<Rightarrow> pystr \<Rightarrow> (kind \<times> nat) option" where
  "match_master U cs =
     (case match_URL U cs of Some n \<Rightarrow> Some (URL, n) | None \<Rightarrow>
      case match_EMAIL cs of Some n \<Rightarrow> Some (EMAIL, n) | None \<Rightarrow>
      case match_HANDLE cs of Some n \<Rightarrow> Some (HANDLE, n) | None \<Rightarrow>
      case match_ELLIPSIS cs of Some n \<Rightarrow> Some (ELLIPSIS, n) | None \<Rightarrow>
      case match_WORD cs of Some n \<Rightarrow> Some (WORD, n) | None \<Rightarrow>
      case match_PUNCT cs of Some n \<Rightarrow> Some (PUNCT, n) | None \<Rightarrow>
      case match_WS U cs of Some n \<Rightarrow> Some (WS, n) | None \<Rightarrow> None)"

lemma email_domain_pos: "email_domain rest l = Some m \<Longrightarrow> 0 < m"
  by (induction l) (auto simp: Let_def split: if_splits)

lemma match_master_pos: "match_master U cs = Some (k, n) \<Longrightarrow> 0 < n"
  by (auto simp: match_master_def match_URL_def lit_nonspace_def match_EMAIL_def
      match_HANDLE_def match_ELLIPSIS_def match_WORD_def match_PUNCT_def match_WS_def Let_def
      dest: email_domain_pos split: option.splits if_splits list.splits)

text \<open>\<open>_MASTER.finditer(text)\<close> from position \<open>p\<close>, where \<open>cs\<close> is the text from \<open>p\<close> on:
  the search moves on by one character where nothing matches and resumes at the end of a
  match; the result lists group name, start and end of every match.\<close>

function finditer :: "unicode_tables \<Rightarrow> nat \<Rightarrow> pystr \<Rightarrow> (kind \<times> nat \<times> nat) list" where
  "finditer U p cs =
     (if cs = [] then []
      else
        (case match_master U cs of
           None \<Rightarrow> finditer U (p + 1) (drop 1 cs)
         | Some (k, n) \<Rightarrow> (k, p, p + n) # finditer U (p + n) (drop n cs)))"
  by pat_completeness auto
termination
proof (relation "measure (\<lambda>(U, p, cs). length cs)")
  fix U :: unicode_tables and p :: nat and cs :: pystr and x2 :: "kind \<times> nat" and k n
  assume "cs \<noteq> []" and "match_master U cs = Some x2" and "(k, n) = x2"
  then have "0 < n" using match_master_pos [of U cs k n] by simp
  then show "((U, p + n, drop n cs), U, p, cs) \<in> measure (\<lambda>(U, p, cs). length cs)"
    using \<open>cs \<noteq> []\<close> by simp
qed auto

declare finditer.simps [simp del]

subsection \<open>tokenize\<close>

definition STRONG_SET :: "pystr set" where
  "STRONG_SET = {[46], [63], [33]}"

definition WEAK_SET :: "pystr set" where
  "WEAK_SET = {ELLIPSIS_CHAR, THREE_DOTS}"

definition CLOSERS :: "pystr set" where
  "CLOSERS = {[34], [8221], [8217], [39], [41], [93], [125], [187]}"

text \<open>\<open>any(p(ch) for ch in piece)\<close>.\<close>

definition any_ch :: "(nat \<Rightarrow> bool) \<Rightarrow> pystr \<Rightarrow> bool" where
  "any_ch p piece \<longleftrightarrow> list_ex p piece"

text \<open>The flags of a match of the given kind. \<open>piece[0]\<close> is only evaluated after
  \<open>any(...)\<close> has found a letter, so on a piece that is not empty.\<close>

definition piece_flags :: "unicode_tables \<Rightarrow> kind \<Rightarrow> pystr \<Rightarrow> int" where
  "piece_flags U k piece =
     (let flags = 0;
          flags = (if k = PUNCT \<or> k = ELLIPSIS then flags OR TF_PUNCT else flags);
          flags = (if k = WORD then
                     (let flags = (if any_ch (isdigit U) piece then flags OR TF_NUM else flags)
                      in if any_ch (isalpha U) piece \<and> isupper U (piece ! 0)
                         then flags OR TF_CAP else flags)
                   else flags);
          flags = (if k = URL \<or> k = EMAIL \<or> k = HANDLE then
                     (if any_ch (isdigit U) piece then flags OR TF_NUM else flags)
                   else flags)
      in flags)"

text \<open>The body of the loop over the matches, on the state \<open>(tokens, kinds, i, idx)\<close>.\<close>

definition first_pass_step ::
  "unicode_tables \<Rightarrow> pystr \<Rightarrow> kind \<times> nat \<times> nat \<Rightarrow>
   Token list \<times> kind list \<times> nat \<times> nat \<Rightarrow> Token list \<times> kind list \<times> nat \<times> nat" where
  "first_pass_step U text m st =
     (case m of (k, s, e) \<Rightarrow>
      case st of (tokens, kinds, i, idx) \<Rightarrow>
        if k = WS then (tokens, kinds, e, idx)
        else
          (let piece = take (e - s) (drop s text);
               flags = piece_flags U k piece
           in (tokens @ [\<lparr>t_idx = int idx, t_text = piece, t_start = int s, t_end = int e,
                           t_flags = flags\<rparr>],
               kinds @ [k], e, idx + 1)))"

text \<open>The fallback after the loop: what is left behind the last match.\<close>

definition fallback ::
  "unicode_tables \<Rightarrow> pystr \<Rightarrow> Token list \<times> kind list \<times> nat \<times> nat \<Rightarrow> Token list \<times> kind list" where
  "fallback U text st =
     (case st of (tokens, kinds, i, idx) \<Rightarrow>
        if i < length text then
          (let piece = drop i text;
               flags = 0;
               flags = (if any_ch (isdigit U) piece then flags OR TF_NUM else flags);
               flags = (if piece \<noteq> [] \<and> any_ch (isalpha U) piece \<and> isupper U (piece ! 0)
                        then flags OR TF_CAP else flags)
           in (tokens @ [\<lparr>t_idx = int idx, t_text = piece, t_start = int i,
                           t_end = int (length text), t_flags = flags\<rparr>],
               kinds @ [WORD]))
        else (tokens, kinds))"

text \<open>The inner loop of the second pass: the weak flag moves through the closers that
  follow a strong terminator.\<close>

function bubble_weak :: "Token list \<Rightarrow> nat \<Rightarrow> Token list" where
  "bubble_weak tokens j =
     (if j < length tokens \<and> t_text (tokens ! j) \<in> CLOSERS
      then bubble_weak
             (tokens[j := (tokens ! j)\<lparr>t_flags := t_flags (tokens ! j) OR TF_SENT_END_WEAK\<rparr>])
             (j + 1)
      else tokens)"
  by pat_completeness auto
termination
  by (relation "measure (\<lambda>(tokens, j). length tokens - j)") auto

declare bubble_weak.simps [simp del]

text \<open>The body of the second pass at index \<open>k\<close>. The lists \<open>tokens\<close> and \<open>kinds\<close> have
  the same length, so \<open>kinds[k]\<close> is in range.\<close>

definition post_step :: "kind list \<Rightarrow> nat \<Rightarrow> Token list \<Rightarrow> Token list" where
  "post_step kinds k tokens =
     (let t = tokens ! k
      in if kinds ! k = PUNCT \<or> kinds ! k = ELLIPSIS then
           (if t_text t \<in> STRONG_SET then
              bubble_weak (tokens[k := t\<lparr>t_flags := t_flags t OR TF_SENT_END_STRONG\<rparr>]) (k + 1)
            else if t_text t \<in> WEAK_SET then
              tokens[k := t\<lparr>t_flags := t_flags t OR TF_SENT_END_WEAK\<rparr>]
            else tokens)
         else tokens)"

text \<open>\<open>tokenize\<close>, together with the list \<open>kinds\<close> that it keeps beside the tokens.\<close>

definition tokenize_kinds :: "unicode_tables \<Rightarrow> pystr \<Rightarrow> Token list \<times> kind list" where
  "tokenize_kinds U text =
     (let st = fold (first_pass_step U text) (finditer U 0 text) ([], [], 0, 0);
          (tokens, kinds) = fallback U text st;
          n = length tokens
      in (fold (post_step kinds) [0..<n] tokens, kinds))"

definition tokenize :: "unicode_tables \<Rightarrow> pystr \<Rightarrow> Token list" where
  "tokenize U text = fst (tokenize_kinds U text)"

section \<open>Sentence segmentation (sentences.py)\<close>

text \<open>The inner loop of the strong-terminator branch: \<open>end\<close> moves over the tokens
  flagged weak that follow; the result is the final \<open>end\<close>.\<close>

function extend_weak :: "Token list \<Rightarrow> nat \<Rightarrow> nat \<Rightarrow> nat" where
  "extend_weak tokens end' j =
     (if j < length tokens \<and> has_flag (t_flags (tokens ! j)) TF_SENT_END_WEAK
      then extend_weak tokens j (j + 1)
      else end')"
  by pat_completeness auto
termination
  by (relation "measure (\<lambda>(tokens, end', j). length tokens - j)") auto

text \<open>The lookahead loop of the ellipsis branch: the result is the final \<open>j\<close>.\<close>

function look_ahead :: "Token list \<Rightarrow> nat \<Rightarrow> nat" where
  "look_ahead tokens j =
     (if j < length tokens \<and>
         (has_flag (t_flags (tokens ! j)) TF_SENT_END_WEAK \<or> has_flag (t_flags (tokens ! j)) TF_PUNCT)
      then look_ahead tokens (j + 1)
      else j)"
  by pat_completeness auto
termination
  by (relation "measure (\<lambda>(tokens, j). length tokens - j)") auto

declare extend_weak.simps [simp del] look_ahead.simps [simp del]

lemma extend_weak_ge: "end' \<le> j \<Longrightarrow> end' \<le> extend_weak tokens end' j"
proof (induction tokens end' j rule: extend_weak.induct)
  case (1 tokens end' j)
  show ?case
  proof (cases "j < length tokens \<and> has_flag (t_flags (tokens ! j)) TF_SENT_END_WEAK")
    case True
    then have "j \<le> extend_weak tokens j (j + 1)" using "1.IH" by simp
    then show ?thesis using True "1.prems" by (subst extend_weak.simps) simp
  next
    case False
    then show ?thesis by (subst extend_weak.simps) auto
  qed
qed

text \<open>The main loop of \<open>segment_tokens\<close>, from the state \<open>(s, k, spans)\<close> to the state at
  its exit.\<close>

function seg_loop :: "Token list \<Rightarrow> nat \<Rightarrow> nat \<Rightarrow> (nat \<times> nat) list \<Rightarrow> nat \<times> (nat \<times> nat) list" where
  "seg_loop tokens s k spans =
     (if k < length tokens then
        (let t = tokens ! k in
         if has_flag (t_flags t) TF_SENT_END_STRONG then
           (let end' = extend_weak tokens k (k + 1)
            in seg_loop tokens (end' + 1) (end' + 1) (spans @ [(s, end' + 1)]))
         else if has_flag (t_flags t) TF_SENT_END_WEAK \<and> t_text t \<in> {ELLIPSIS_CHAR, THREE_DOTS} \<and>
                 (let j = look_ahead tokens (k + 1)
                  in j \<ge> length tokens \<or> has_flag (t_flags (tokens ! j)) TF_CAP) then
           seg_loop tokens (k + 1) (k + 1) (spans @ [(s, k + 1)])
         else seg_loop tokens s (k + 1) spans)
      else (s, spans))"
  by pat_completeness auto
termination
proof (relation "measure (\<lambda>(tokens, s, k, spans). length tokens - k)")
  fix tokens :: "Token list" and s k :: nat and spans :: "(nat \<times> nat) list" and t end'
  assume "k < length tokens" and "end' = extend_weak tokens k (k + 1)"
  moreover have "k \<le> extend_weak tokens k (k + 1)" by (rule extend_weak_ge) simp
  ultimately show "((tokens, end' + 1, end' + 1, spans @ [(s, end' + 1)]), tokens, s, k, spans)
        \<in> measure (\<lambda>(tokens, s, k, spans). length tokens - k)"
    by simp
qed auto

declare seg_loop.simps [simp del]

text \<open>The code after the loop: the trailing material without a terminator.\<close>

definition seg_finish :: "Token list \<Rightarrow> nat \<times> (nat \<times> nat) list \<Rightarrow> (nat \<times> nat) list" where
  "seg_finish tokens st =
     (let (s, spans) = st
      in if s < length tokens then spans @ [(s, length tokens)] else spans)"

definition segment_tokens :: "Token list \<Rightarrow> (nat \<times> nat) list" where
  "segment_tokens tokens =
     (if length tokens = 0 then []
      else seg_finish tokens (seg_loop tokens 0 0 []))"

section \<open>Morphology (morph.py)\<close>

subsection \<open>Vocabulary (morph.py)\<close>

record Vocab =
  tok2id :: "pystr \<rightharpoonup> int"
  id2tok :: "pystr list"

definition Vocab_init :: Vocab where
  "Vocab_init = \<lparr>tok2id = Map.empty, id2tok = []\<rparr>"

definition get_id :: "pystr \<Rightarrow> Vocab \<Rightarrow> int \<times> Vocab" where
  "get_id s v =
     (case tok2id v s of
        Some i \<Rightarrow> (i, v)
      | None \<Rightarrow>
          (let idx = int (length (id2tok v)) + 1
           in (idx, v\<lparr>tok2id := (tok2id v)(s \<mapsto> idx), id2tok := id2tok v @ [s]\<rparr>)))"

definition get_str :: "int \<Rightarrow> Vocab \<Rightarrow> pystr" where
  "get_str i v = (if i \<le> 0 \<or> i > int (length (id2tok v)) then [] else id2tok v ! nat (i - 1))"

text \<open>The state of one instance after a sequence of \<open>get_id\<close> calls.\<close>

fun get_ids :: "pystr list \<Rightarrow> Vocab \<Rightarrow> Vocab" where
  "get_ids [] v = v"
| "get_ids (s # ss) v = get_ids ss (snd (get_id s v))"


subsection \<open>Graph annotation\<close>

record MorphInfo =
  lemma_str :: pystr
  lemma_id :: int
  pos :: int
  bits :: int
  is_stop :: bool




section \<open>Auxiliary notions of the proofs\<close>

text \<open>The invariant of a vocabulary: every stored id is a position of \<open>id2tok\<close>
  (counted from 1) that holds its string.\<close>

definition vocab_inv :: "Vocab \<Rightarrow> bool" where
  "vocab_inv v \<longleftrightarrow>
     (\<forall>s i. tok2id v s = Some i \<longrightarrow>
        1 \<le> i \<and> i \<le> int (length (id2tok v)) \<and> id2tok v ! nat (i - 1) = s)"


text \<open>Two states of a Node object that differ at most in \<open>sub_type\<close>, in \<open>label_id\<close> and
  in bit 1 (the stop-word bit) of the flags.\<close>

definition same_frame :: "Node \<Rightarrow> Node \<Rightarrow> bool" where
  "same_frame a b \<longleftrightarrow>
     node_id b = node_id a \<and> n_type b = n_type a \<and> features_ref b = features_ref a \<and>
     span b = span a \<and> n_confidence b = n_confidence a \<and>
     (\<forall>k. k \<noteq> 1 \<longrightarrow> bit (n_flags b) k = bit (n_flags a) k)"


text \<open>A list of spans that runs from \<open>a\<close> to \<open>b\<close>: each span is non-empty and starts
  where the one before it ended.\<close>

fun chain :: "nat \<Rightarrow> (nat \<times> nat) list \<Rightarrow> nat \<Rightarrow> bool" where
  "chain a [] b \<longleftrightarrow> a = b"
| "chain a ((x, y) # rest) b \<longleftrightarrow> x = a \<and> x < y \<and> chain y rest b"


text \<open>The ranges of the fields of a graph, and the bytes that the encoder writes for
  a graph in range.\<close>

definition uvarint_ok :: "int \<Rightarrow> bool" where
  "uvarint_ok v \<longleftrightarrow> 0 \<le> v \<and> v < 2 ^ 70"

definition byte_ok :: "int \<Rightarrow> bool" where
  "byte_ok x \<longleftrightarrow> 0 \<le> x \<and> x < 256"

definition u16_ok :: "int \<Rightarrow> bool" where
  "u16_ok x \<longleftrightarrow> 0 \<le> x \<and> x < 65536"

definition node_ok :: "Node \<Rightarrow> bool" where
  "node_ok n \<longleftrightarrow>
     uvarint_ok (node_id n) \<and> byte_ok (n_type n) \<and> byte_ok (sub_type n) \<and>
     uvarint_ok (features_ref n) \<and> uvarint_ok (fst (span n)) \<and> uvarint_ok (snd (span n)) \<and>
     u16_ok (n_flags n) \<and> byte_ok (n_confidence n) \<and> uvarint_ok (label_id n)"

definition edge_ok :: "Edge \<Rightarrow> bool" where
  "edge_ok e \<longleftrightarrow>
     uvarint_ok (src_id e) \<and> uvarint_ok (dst_id e) \<and> byte_ok (e_type e) \<and>
     byte_ok (weight e) \<and> uvarint_ok (time e) \<and> u16_ok (e_flags e) \<and>
     byte_ok (e_confidence e) \<and> uvarint_ok (attr_ref e)"

definition header_ok :: "Graph \<Rightarrow> bool" where
  "header_ok g \<longleftrightarrow>
     uvarint_ok (graph_id g) \<and> byte_ok (graph_type g) \<and>
     num_nodes g = int (length (nodes g)) \<and> num_edges g = int (length (edges g)) \<and>
     uvarint_ok (num_nodes g) \<and> uvarint_ok (num_edges g) \<and>
     uvarint_ok (source_id g) \<and> uvarint_ok (version g) \<and> byte_ok (schema_id g) \<and>
     list_all node_ok (nodes g) \<and> list_all edge_ok (edges g)"

definition graph_ok :: "Graph \<Rightarrow> bool" where
  "graph_ok g \<longleftrightarrow>
     header_ok g \<and>
     (case g_features g of None \<Rightarrow> True
      | Some bs \<Rightarrow> length bs = 0 \<or> length bs = 64 \<or> length bs = 128)"

definition node_bytes :: "Node \<Rightarrow> bytes" where
  "node_bytes n =
     uvarint_encode_loop (nat (node_id n)) @
     [u8 (n_type n)] @
     [u8 (sub_type n)] @
     uvarint_encode_loop (nat (features_ref n)) @
     uvarint_encode_loop (nat (fst (span n))) @
     uvarint_encode_loop (nat (snd (span n))) @
     u16_le (n_flags n) @
     [u8 (n_confidence n)] @
     uvarint_encode_loop (nat (label_id n))"

definition edge_bytes :: "Edge \<Rightarrow> bytes" where
  "edge_bytes e =
     uvarint_encode_loop (nat (src_id e)) @
     uvarint_encode_loop (nat (dst_id e)) @
     [u8 (e_type e)] @
     [u8 (weight e)] @
     uvarint_encode_loop (nat (time e)) @
     u16_le (e_flags e) @
     [u8 (e_confidence e)] @
     uvarint_encode_loop (nat (attr_ref e))"


definition features_bytes :: "Graph \<Rightarrow> bytes" where
  "features_bytes g = (case g_features g of None \<Rightarrow> [] | Some bs \<Rightarrow> bs)"

definition graph_bytes :: "Graph \<Rightarrow> bytes" where
  "graph_bytes g =
     PG_MAGIC @
     uvarint_encode_loop (nat (graph_id g)) @
     [u8 (graph_type g)] @
     uvarint_encode_loop (nat (num_nodes g)) @
     uvarint_encode_loop (nat (num_edges g)) @
     uvarint_encode_loop (nat (source_id g)) @
     uvarint_encode_loop (nat (version g)) @
     [u8 (schema_id g)] @
     concat (map node_bytes (nodes g)) @
     concat (map edge_bytes (edges g)) @
     uvarint_encode_loop (length (features_bytes g)) @
     features_bytes g"


text \<open>How a token may change in the second pass: its text and its first-pass flags stay,
  the two sentence-end flags are only ever set, and the strong flag is only set on a
  strong terminator.\<close>

definition evolves :: "Token \<Rightarrow> Token \<Rightarrow> bool" where
  "evolves t t' \<longleftrightarrow>
     t_text t' = t_text t \<and>
     has_flag (t_flags t') TF_CAP = has_flag (t_flags t) TF_CAP \<and>
     has_flag (t_flags t') TF_PUNCT = has_flag (t_flags t) TF_PUNCT \<and>
     has_flag (t_flags t') TF_NUM = has_flag (t_flags t) TF_NUM \<and>
     (has_flag (t_flags t) TF_SENT_END_STRONG \<longrightarrow> has_flag (t_flags t') TF_SENT_END_STRONG) \<and>
     (has_flag (t_flags t) TF_SENT_END_WEAK \<longrightarrow> has_flag (t_flags t') TF_SENT_END_WEAK) \<and>
     (has_flag (t_flags t') TF_SENT_END_STRONG \<longrightarrow>
        has_flag (t_flags t) TF_SENT_END_STRONG \<or> t_text t \<in> STRONG_SET)"

text \<open>What the second pass owes to the token at index \<open>k\<close>, in terms of the texts before
  the pass.\<close>

definition marked :: "kind list \<Rightarrow> Token list \<Rightarrow> nat \<Rightarrow> Token list \<Rightarrow> bool" where
  "marked kinds ts k res \<longleftrightarrow>
     ((kinds ! k = PUNCT \<or> kinds ! k = ELLIPSIS) \<and> t_text (ts ! k) \<in> STRONG_SET \<longrightarrow>
        has_flag (t_flags (res ! k)) TF_SENT_END_STRONG \<and>
        (\<forall>j. k < j \<and> j < length ts \<and> (\<forall>m. k < m \<and> m \<le> j \<longrightarrow> t_text (ts ! m) \<in> CLOSERS) \<longrightarrow>
             has_flag (t_flags (res ! j)) TF_SENT_END_WEAK)) \<and>
     ((kinds ! k = PUNCT \<or> kinds ! k = ELLIPSIS) \<and> t_text (ts ! k) \<in> WEAK_SET \<longrightarrow>
        has_flag (t_flags (res ! k)) TF_SENT_END_WEAK)"

text \<open>What the first pass guarantees of a token and its kind.\<close>

definition tok_inv :: "unicode_tables \<Rightarrow> Token \<Rightarrow> kind \<Rightarrow> bool" where
  "tok_inv U t kd \<longleftrightarrow>
     \<not> has_flag (t_flags t) TF_SENT_END_STRONG \<and>
     \<not> has_flag (t_flags t) TF_SENT_END_WEAK \<and>
     (has_flag (t_flags t) TF_PUNCT \<longleftrightarrow> kd = PUNCT \<or> kd = ELLIPSIS) \<and>
     (has_flag (t_flags t) TF_CAP \<longleftrightarrow>
        kd = WORD \<and> any_ch (isalpha U) (t_text t) \<and> isupper U (t_text t ! 0)) \<and>
     (t_text t \<in> WEAK_SET \<longrightarrow> kd = ELLIPSIS)"

text \<open>The end of the last match, or \<open>p\<close> when there is none: the value of \<open>i\<close> after the
  loop over the matches.\<close>

definition last_end :: "nat \<Rightarrow> (kind \<times> nat \<times> nat) list \<Rightarrow> nat" where
  "last_end p ms = (if ms = [] then p else snd (snd (last ms)))"

section \<open>Sample values\<close>






definition sample_token :: "pystr \<Rightarrow> int \<Rightarrow> Token" where
  "sample_token txt fl = \<lparr>t_idx = 0, t_text = txt, t_start = 0, t_end = 1, t_flags = fl\<rparr>"

text \<open>The flags of the tokens of \<open>Go.) x\<close>: a word, a strong terminator, a closer
  flagged weak, a word.\<close>

definition sample_tokens :: "Token list" where
  "sample_tokens = [sample_token [71, 111] 1, sample_token [46] 10, sample_token [41] 18,
                    sample_token [120] 0]"



definition empty_graph :: Graph where
  "empty_graph = \<lparr>graph_id = 1, graph_type = 5, num_nodes = 0, num_edges = 0,
     g_features = None, source_id = 0, version = 1, schema_id = 1, nodes = [], edges = []\<rparr>"


definition thumb_graph :: Graph where
  "thumb_graph = \<lparr>graph_id = 300, graph_type = 5, num_nodes = 2, num_edges = 1,
     g_features = Some (replicate 64 200), source_id = 0, version = 1, schema_id = 1,
     nodes = [\<lparr>node_id = 0, n_type = 1, sub_type = 0, features_ref = 0, span = (0, 1),
               n_flags = 4, n_confidence = 240, label_id = 123\<rparr>,
              \<lparr>node_id = 1, n_type = 1, sub_type = 0, features_ref = 0, span = (1, 2),
               n_flags = 0, n_confidence = 255, label_id = 456\<rparr>],
     edges = [\<lparr>src_id = 0, dst_id = 1, e_type = 9, weight = 255, time = 0, e_flags = 1,
               e_confidence = 255, attr_ref = 0\<rparr>]\<rparr>"


text \<open>The character tables on ASCII text: the whitespace, the digits, the letters and the
  capital letters among the code points below 128. The sample texts are ASCII.\<close>

definition ascii_tables :: unicode_tables where
  "ascii_tables =
     \<lparr>isspace = (\<lambda>c. (9 \<le> c \<and> c \<le> 13) \<or> (28 \<le> c \<and> c \<le> 32)),
      isdigit = (\<lambda>c. 48 \<le> c \<and> c \<le> 57),
      isalpha = (\<lambda>c. (65 \<le> c \<and> c \<le> 90) \<or> (97 \<le> c \<and> c \<le> 122)),
      isupper = (\<lambda>c. 65 \<le> c \<and> c \<le> 90)\<rparr>"

text \<open>The texts \<open>Okay... I guess\<close> and \<open>Go.") x\<close>.\<close>

definition okay_text :: pystr where
  "okay_text = [79, 107, 97, 121, 46, 46, 46, 32, 73, 32, 103, 117, 101, 115, 115]"

definition quoted_text :: pystr where
  "quoted_text = [71, 111, 46, 34, 41, 32, 120]"

section \<open>Properties of the builder\<close>

text \<open>C3 (as stated, refuted): the claim lets a byte string of length 0 succeed, but
  the guard of \<open>set_thumbnail\<close> admits only \<open>None\<close>, 64 and 128: the empty byte string,
  whose length 0 is in {0, 64, 128}, is rejected.\<close>

theorem set_thumbnail_empty_rejected:
  "length ([] :: bytes) \<in> {0, 64, 128} \<and>
   set_thumbnail (Some []) (GraphBuilder_init 1) = (Inl InvalidThumbnailLength, GraphBuilder_init 1)"
  by (simp add: set_thumbnail_def)

text \<open>C3 (amended): \<open>set_thumbnail b\<close> fails with the invalid-thumbnail-length error if
  and only if \<open>b\<close> is a byte string whose length is neither 64 nor 128 (so \<open>None\<close>, 64
  and 128 succeed and store \<open>b\<close>; a 65-byte thumbnail is rejected), and on failure
  the builder, hence its stored thumbnail, is unchanged.\<close>

theorem set_thumbnail_spec:
  "(fst (set_thumbnail b gb) = Inl InvalidThumbnailLength
      \<longleftrightarrow> (\<exists>bs. b = Some bs \<and> length bs \<noteq> 64 \<and> length bs \<noteq> 128)) \<and>
   (fst (set_thumbnail b gb) \<noteq> Inl InvalidThumbnailLength
      \<longrightarrow> set_thumbnail b gb = (Inr (), gb\<lparr>gb_features := b\<rparr>)) \<and>
   (fst (set_thumbnail b gb) = Inl InvalidThumbnailLength
      \<longrightarrow> snd (set_thumbnail b gb) = gb) \<and>
   (length bs65 = 65 \<longrightarrow> set_thumbnail (Some bs65) gb = (Inl InvalidThumbnailLength, gb))"
  by (cases b) (auto simp: set_thumbnail_def)

theorem set_thumbnail_spec_witness:
  "set_thumbnail (Some (replicate 65 0)) (GraphBuilder_init 1)
     = (Inl InvalidThumbnailLength, GraphBuilder_init 1) \<and>
   set_thumbnail (Some (replicate 64 7)) (GraphBuilder_init 1)
     = (Inr (), (GraphBuilder_init 1)\<lparr>gb_features := Some (replicate 64 7)\<rparr>) \<and>
   set_thumbnail None (GraphBuilder_init 1)
     = (Inr (), (GraphBuilder_init 1)\<lparr>gb_features := None\<rparr>)"
  using set_thumbnail_spec [of "Some (replicate 65 0)" "GraphBuilder_init 1" "replicate 65 0"]
        set_thumbnail_spec [of "Some (replicate 64 7)" "GraphBuilder_init 1" "replicate 65 0"]
        set_thumbnail_spec [of "None" "GraphBuilder_init 1" "replicate 65 0"]
  by simp

section \<open>Properties of the codec\<close>

subsection \<open>Bytes and bits\<close>

lemma drop_eq_ConsD:
  "drop i buf = x # xs \<Longrightarrow> i < length buf \<and> buf ! i = x \<and> drop (Suc i) buf = xs"
  by (metis Cons_nth_drop_Suc drop_all list.discI list.inject not_le_imp_less)

lemma n127: "(127::nat) = mask 7" by (simp add: mask_eq_exp_minus_1)
lemma n128: "(128::nat) = push_bit 7 1" by simp
lemma mod256: "(x::nat) mod 256 = take_bit (Suc 7) x" by (simp add: take_bit_eq_mod)

lemma gen_cont_val: "take_bit (Suc k) (((v::nat) AND mask k) OR push_bit k 1) = take_bit k v OR push_bit k 1"
  by (rule bit_eqI) (auto simp: bit_simps)

lemma gen_last_val: "take_bit (Suc k) ((v::nat) AND mask k) = take_bit k v"
  by (rule bit_eqI) (auto simp: bit_simps)

lemma gen_low_cont: "((take_bit k (v::nat) OR push_bit k 1) AND mask k) = take_bit k v"
  by (rule bit_eqI) (auto simp: bit_simps)

lemma gen_high_cont: "(take_bit k (v::nat) OR push_bit k 1) AND push_bit k 1 = push_bit k 1"
  by (rule bit_eqI) (auto simp: bit_simps)

lemma gen_low_last: "(take_bit k (v::nat) AND mask k) = take_bit k v"
  by (rule bit_eqI) (auto simp: bit_simps)

lemma gen_high_last: "(take_bit k (v::nat) AND push_bit k 1) = 0"
  by (rule bit_eqI) (auto simp: bit_simps)

lemma byte_cont_val: "unat (of_nat (((v::nat) AND 127) OR 128) :: 8 word) = take_bit 7 v OR 128"
proof -
  have "unat (of_nat ((v AND 127) OR 128) :: 8 word) = ((v AND 127) OR 128) mod 256"
    by (simp add: unat_of_nat)
  also have "\<dots> = take_bit (Suc 7) ((v AND mask 7) OR push_bit 7 1)"
    by (simp only: mod256 n127 n128)
  also have "\<dots> = take_bit 7 v OR push_bit 7 1"
    by (rule gen_cont_val)
  finally show ?thesis by simp
qed

lemma byte_last_val: "unat (of_nat ((v::nat) AND 127) :: 8 word) = take_bit 7 v"
proof -
  have "unat (of_nat (v AND 127) :: 8 word) = (v AND 127) mod 256"
    by (simp add: unat_of_nat)
  also have "\<dots> = take_bit (Suc 7) (v AND mask 7)"
    by (simp only: mod256 n127)
  also have "\<dots> = take_bit 7 v"
    by (rule gen_last_val)
  finally show ?thesis .
qed

lemma low7_cont: "((take_bit 7 (v::nat) OR 128) AND 127) = take_bit 7 v"
  using gen_low_cont [of 7 v] by (simp add: mask_eq_exp_minus_1)

lemma high_cont: "((take_bit 7 (v::nat) OR 128) AND 128) \<noteq> 0"
  using gen_high_cont [of 7 v] by simp

lemma low7_last: "(take_bit 7 (v::nat) AND 127) = take_bit 7 v"
  using gen_low_last [of 7 v] by (simp add: mask_eq_exp_minus_1)

lemma high_last: "(take_bit 7 (v::nat) AND 128) = 0"
  using gen_high_last [of 7 v] by simp

lemma merge7:
  "(a OR push_bit s (take_bit 7 v)) OR push_bit (s + 7) (drop_bit 7 v) = a OR push_bit s (v::nat)"
proof (rule bit_eqI)
  fix n
  show "bit ((a OR push_bit s (take_bit 7 v)) OR push_bit (s + 7) (drop_bit 7 v)) n
        = bit (a OR push_bit s v) n"
  proof (cases "s + 7 \<le> n")
    case True
    then have "7 + (n - (s + 7)) = n - s" by simp
    then show ?thesis using True by (auto simp: bit_simps)
  next
    case False
    then show ?thesis by (auto simp: bit_simps)
  qed
qed

lemma drop7_bound: "(v::nat) < 2 ^ (7 * Suc m) \<Longrightarrow> drop_bit 7 v < 2 ^ (7 * m)"
  by (simp add: drop_bit_eq_div less_mult_imp_div_less power_add mult.commute)


lemma uvarint_loop_roundtrip:
  "v < 2 ^ (7 * (10 - m)) \<Longrightarrow> m \<le> 9 \<Longrightarrow> drop i buf = uvarint_encode_loop v @ rest \<Longrightarrow>
   uvarint_decode_loop buf i (7 * m) a
     = Inr (a OR push_bit (7 * m) v, i + length (uvarint_encode_loop v))"
proof (induction v arbitrary: i m a rule: uvarint_encode_loop.induct)
  case (1 v)
  show ?case
  proof (cases "drop_bit 7 v = 0")
    case True
    then have enc: "uvarint_encode_loop v = [of_nat (v AND 127)]"
      by (subst uvarint_encode_loop.simps) (simp add: Let_def)
    from "1.prems"(3) enc have "drop i buf = of_nat (v AND 127) # rest" by simp
    from drop_eq_ConsD [OF this]
    have i: "i < length buf" and b: "buf ! i = of_nat (v AND 127)" by simp_all
    have tb: "take_bit 7 v = v" using True by (metis bits_ident push_bit_of_0 add.left_neutral)
    have l: "unat (buf ! i) AND 127 = take_bit 7 v" and h: "unat (buf ! i) AND 128 = 0"
      unfolding b byte_last_val by (rule low7_last, rule high_last)
    have "uvarint_decode_loop buf i (7 * m) a
            = Inr (a OR push_bit (7 * m) (unat (buf ! i) AND 127), i + 1)"
      using i h by (subst uvarint_decode_loop.simps) (simp add: Let_def)
    then show ?thesis unfolding l tb enc by simp
  next
    case False
    let ?x = "of_nat ((v AND 127) OR 128) :: byte"
    let ?v' = "drop_bit 7 v"
    have enc: "uvarint_encode_loop v = ?x # uvarint_encode_loop ?v'"
      using False by (subst uvarint_encode_loop.simps) (simp add: Let_def)
    from "1.prems"(3) enc have "drop i buf = ?x # (uvarint_encode_loop ?v' @ rest)" by simp
    from drop_eq_ConsD [OF this]
    have i: "i < length buf" and b: "buf ! i = ?x"
      and d: "drop (Suc i) buf = uvarint_encode_loop ?v' @ rest" by simp_all
    have m8: "m \<le> 8"
    proof (rule ccontr)
      assume "\<not> m \<le> 8"
      then have "m = 9" using "1.prems"(2) by simp
      then have "v < 2 ^ 7" using "1.prems"(1) by simp
      then have "drop_bit 7 v = 0" by (simp add: drop_bit_eq_div)
      then show False using False by simp
    qed
    then have "7 * (10 - m) = 7 * Suc (10 - Suc m)" by simp
    then have bound: "?v' < 2 ^ (7 * (10 - Suc m))"
      using "1.prems"(1) drop7_bound by metis
    have sm: "Suc m \<le> 9" using m8 by simp
    have ih: "uvarint_decode_loop buf (Suc i) (7 * Suc m) (a OR push_bit (7 * m) (take_bit 7 v))
       = Inr ((a OR push_bit (7 * m) (take_bit 7 v)) OR push_bit (7 * Suc m) ?v',
              Suc i + length (uvarint_encode_loop ?v'))"
      using "1.IH" [OF refl refl False bound sm d] .
    have sh: "7 * m + 7 = 7 * Suc m" by simp
    have le: "\<not> 7 * Suc m > 63" using m8 by simp
    have l: "unat (buf ! i) AND 127 = take_bit 7 v" and h: "unat (buf ! i) AND 128 \<noteq> 0"
      unfolding b byte_cont_val by (rule low7_cont, rule high_cont)
    have "uvarint_decode_loop buf i (7 * m) a
            = uvarint_decode_loop buf (i + 1) (7 * m + 7)
                (a OR push_bit (7 * m) (unat (buf ! i) AND 127))"
      using i h le by (subst uvarint_decode_loop.simps) (simp add: Let_def)
    also have "\<dots> = Inr ((a OR push_bit (7 * m) (take_bit 7 v)) OR push_bit (7 * Suc m) ?v',
              Suc i + length (uvarint_encode_loop ?v'))"
      unfolding l using ih by (simp add: add.commute)
    finally show ?thesis
      using merge7 [of a "7 * m" v] enc by (simp add: add.commute)
  qed
qed

lemma uvarint_roundtrip:
  assumes "0 \<le> v" and "v < 2 ^ 70" and "drop i buf = uvarint_encode_loop (nat v) @ rest"
  shows "uvarint_decode buf i = Inr (v, i + length (uvarint_encode_loop (nat v)))"
proof -
  have "nat v < 2 ^ (7 * (10 - 0))" using assms(1,2) by (simp add: nat_less_iff)
  from uvarint_loop_roundtrip [OF this _ assms(3), of 0]
  show ?thesis using assms(1) by (simp add: uvarint_decode_def)
qed


subsection \<open>Decoding what the encoder wrote\<close>

lemma and255: "0 \<le> x \<Longrightarrow> x < 256 \<Longrightarrow> (x::int) AND 255 = x"
proof -
  assume a: "0 \<le> x" "x < 256"
  have "(255::int) = mask 8" by (simp add: mask_eq_exp_minus_1)
  then have "x AND 255 = take_bit 8 x" by (simp add: take_bit_eq_mask)
  also have "\<dots> = x" using a by (simp add: take_bit_eq_mod)
  finally show ?thesis .
qed

lemma and255_mod: "(x::int) AND 255 = x mod 256"
proof -
  have "(255::int) = mask 8" by (simp add: mask_eq_exp_minus_1)
  then have "x AND 255 = take_bit 8 x" by (simp add: take_bit_eq_mask)
  then show ?thesis by (simp add: take_bit_eq_mod)
qed

lemma and65535: "0 \<le> x \<Longrightarrow> x < 65536 \<Longrightarrow> (x::int) AND 65535 = x"
proof -
  assume a: "0 \<le> x" "x < 65536"
  have "(65535::int) = mask 16" by (simp add: mask_eq_exp_minus_1)
  then have "x AND 65535 = take_bit 16 x" by (simp add: take_bit_eq_mask)
  also have "\<dots> = x" using a by (simp add: take_bit_eq_mod)
  finally show ?thesis .
qed

lemma uint_u8: "byte_ok x \<Longrightarrow> uint (u8 x) = x"
  by (simp add: byte_ok_def u8_def and255 uint_word_of_int_eq take_bit_eq_mod)

lemma from_bytes_u16: "u16_ok x \<Longrightarrow> from_bytes_le (u16_le x) = x"
proof -
  assume "u16_ok x"
  then have a: "0 \<le> x" "x < 65536" by (simp_all add: u16_ok_def)
  have "from_bytes_le (u16_le x) = (x mod 256) mod 256 + 256 * (((x div 256) mod 256) mod 256)"
    by (simp add: u16_le_def Let_def and65535 [OF a] and255_mod uint_word_of_int_eq
        take_bit_eq_mod drop_bit_eq_div)
  also have "\<dots> = x" using a by simp
  finally show ?thesis .
qed

lemma length_u16 [simp]: "length (u16_le x) = 2"
  by (simp add: u16_le_def Let_def)

lemma drop_advance: "drop i buf = a @ rest \<Longrightarrow> drop (i + length a) buf = rest"
  by (metis add.commute append_eq_conv_conj drop_drop)

lemma read_uvarint_at:
  assumes "uvarint_ok v" and "drop i buf = uvarint_encode_loop (nat v) @ rest"
  shows "uvarint_decode buf i = Inr (v, i + length (uvarint_encode_loop (nat v)))"
  using assms uvarint_roundtrip by (simp add: uvarint_ok_def)

lemma read_u8_at:
  assumes "byte_ok x" and "drop i buf = [u8 x] @ rest"
  shows "read_u8 buf i = Inr (x, i + length [u8 x])"
proof -
  from assms(2) have "drop i buf = u8 x # rest" by simp
  from drop_eq_ConsD [OF this] show ?thesis using assms(1) by (simp add: read_u8_def uint_u8)
qed

lemma read_u16_at:
  assumes "u16_ok x" and "drop i buf = u16_le x @ rest"
  shows "read_u16 buf i = (x, i + length (u16_le x))"
  using assms by (simp add: read_u16_def from_bytes_u16)

lemma encode_node_ok: "node_ok n \<Longrightarrow> encode_node n = Inr (node_bytes n)"
  by (simp add: encode_node_def node_ok_def uvarint_ok_def uvarint_encode_def ebind_def
      node_bytes_def)

lemma decode_node_at:
  assumes ok: "node_ok n" and d: "drop i buf = node_bytes n @ rest"
  shows "decode_node buf i = Inr (n, i + length (node_bytes n))"
proof -
  have d0: "drop i buf = uvarint_encode_loop (nat (node_id n)) @ [u8 (n_type n)] @ [u8 (sub_type n)] @ uvarint_encode_loop (nat (features_ref n)) @ uvarint_encode_loop (nat (fst (span n))) @ uvarint_encode_loop (nat (snd (span n))) @ u16_le (n_flags n) @ [u8 (n_confidence n)] @ uvarint_encode_loop (nat (label_id n)) @ rest"
    using d by (simp add: node_bytes_def)
  define o1 where "o1 = i + length (uvarint_encode_loop (nat (node_id n)))"
  have k1: "uvarint_ok (node_id n)" using ok by (simp add: node_ok_def)
  have r1: "uvarint_decode buf i = Inr (node_id n, o1)"
    unfolding o1_def by (rule read_uvarint_at [OF k1 d0])
  have d1: "drop o1 buf = [u8 (n_type n)] @ [u8 (sub_type n)] @ uvarint_encode_loop (nat (features_ref n)) @ uvarint_encode_loop (nat (fst (span n))) @ uvarint_encode_loop (nat (snd (span n))) @ u16_le (n_flags n) @ [u8 (n_confidence n)] @ uvarint_encode_loop (nat (label_id n)) @ rest"
    unfolding o1_def by (rule drop_advance [OF d0])
  define o2 where "o2 = o1 + length ([u8 (n_type n)])"
  have k2: "byte_ok (n_type n)" using ok by (simp add: node_ok_def)
  have r2: "read_u8 buf o1 = Inr (n_type n, o2)"
    unfolding o2_def by (rule read_u8_at [OF k2 d1])
  have d2: "drop o2 buf = [u8 (sub_type n)] @ uvarint_encode_loop (nat (features_ref n)) @ uvarint_encode_loop (nat (fst (span n))) @ uvarint_encode_loop (nat (snd (span n))) @ u16_le (n_flags n) @ [u8 (n_confidence n)] @ uvarint_encode_loop (nat (label_id n)) @ rest"
    unfolding o2_def by (rule drop_advance [OF d1])
  define o3 where "o3 = o2 + length ([u8 (sub_type n)])"
  have k3: "byte_ok (sub_type n)" using ok by (simp add: node_ok_def)
  have r3: "read_u8 buf o2 = Inr (sub_type n, o3)"
    unfolding o3_def by (rule read_u8_at [OF k3 d2])
  have d3: "drop o3 buf = uvarint_encode_loop (nat (features_ref n)) @ uvarint_encode_loop (nat (fst (span n))) @ uvarint_encode_loop (nat (snd (span n))) @ u16_le (n_flags n) @ [u8 (n_confidence n)] @ uvarint_encode_loop (nat (label_id n)) @ rest"
    unfolding o3_def by (rule drop_advance [OF d2])
  define o4 where "o4 = o3 + length (uvarint_encode_loop (nat (features_ref n)))"
  have k4: "uvarint_ok (features_ref n)" using ok by (simp add: node_ok_def)
  have r4: "uvarint_decode buf o3 = Inr (features_ref n, o4)"
    unfolding o4_def by (rule read_uvarint_at [OF k4 d3])
  have d4: "drop o4 buf = uvarint_encode_loop (nat (fst (span n))) @ uvarint_encode_loop (nat (snd (span n))) @ u16_le (n_flags n) @ [u8 (n_confidence n)] @ uvarint_encode_loop (nat (label_id n)) @ rest"
    unfolding o4_def by (rule drop_advance [OF d3])
  define o5 where "o5 = o4 + length (uvarint_encode_loop (nat (fst (span n))))"
  have k5: "uvarint_ok (fst (span n))" using ok by (simp add: node_ok_def)
  have r5: "uvarint_decode buf o4 = Inr (fst (span n), o5)"
    unfolding o5_def by (rule read_uvarint_at [OF k5 d4])
  have d5: "drop o5 buf = uvarint_encode_loop (nat (snd (span n))) @ u16_le (n_flags n) @ [u8 (n_confidence n)] @ uvarint_encode_loop (nat (label_id n)) @ rest"
    unfolding o5_def by (rule drop_advance [OF d4])
  define o6 where "o6 = o5 + length (uvarint_encode_loop (nat (snd (span n))))"
  have k6: "uvarint_ok (snd (span n))" using ok by (simp add: node_ok_def)
  have r6: "uvarint_decode buf o5 = Inr (snd (span n), o6)"
    unfolding o6_def by (rule read_uvarint_at [OF k6 d5])
  have d6: "drop o6 buf = u16_le (n_flags n) @ [u8 (n_confidence n)] @ uvarint_encode_loop (nat (label_id n)) @ rest"
    unfolding o6_def by (rule drop_advance [OF d5])
  define o7 where "o7 = o6 + length (u16_le (n_flags n))"
  have k7: "u16_ok (n_flags n)" using ok by (simp add: node_ok_def)
  have r7: "read_u16 buf o6 = (n_flags n, o7)"
    unfolding o7_def by (rule read_u16_at [OF k7 d6])
  have d7: "drop o7 buf = [u8 (n_confidence n)] @ uvarint_encode_loop (nat (label_id n)) @ rest"
    unfolding o7_def by (rule drop_advance [OF d6])
  define o8 where "o8 = o7 + length ([u8 (n_confidence n)])"
  have k8: "byte_ok (n_confidence n)" using ok by (simp add: node_ok_def)
  have r8: "read_u8 buf o7 = Inr (n_confidence n, o8)"
    unfolding o8_def by (rule read_u8_at [OF k8 d7])
  have d8: "drop o8 buf = uvarint_encode_loop (nat (label_id n)) @ rest"
    unfolding o8_def by (rule drop_advance [OF d7])
  define o9 where "o9 = o8 + length (uvarint_encode_loop (nat (label_id n)))"
  have k9: "uvarint_ok (label_id n)" using ok by (simp add: node_ok_def)
  have r9: "uvarint_decode buf o8 = Inr (label_id n, o9)"
    unfolding o9_def by (rule read_uvarint_at [OF k9 d8])
  have d9: "drop o9 buf = rest"
    unfolding o9_def by (rule drop_advance [OF d8])
  have fin: "o9 = i + length (node_bytes n)"
    by (simp add: node_bytes_def o1_def o2_def o3_def o4_def o5_def o6_def o7_def o8_def o9_def)
  have "decode_node buf i = Inr (n, o9)"
    by (simp add: decode_node_def ebind_def r1 r2 r3 r4 r5 r6 r7 r8 r9)
  then show ?thesis by (simp only: fin)
qed

lemma encode_edge_ok: "edge_ok e \<Longrightarrow> encode_edge e = Inr (edge_bytes e)"
  by (simp add: encode_edge_def edge_ok_def uvarint_ok_def uvarint_encode_def ebind_def
      edge_bytes_def)

lemma decode_edge_at:
  assumes ok: "edge_ok e" and d: "drop i buf = edge_bytes e @ rest"
  shows "decode_edge buf i = Inr (e, i + length (edge_bytes e))"
proof -
  have d0: "drop i buf = uvarint_encode_loop (nat (src_id e)) @ uvarint_encode_loop (nat (dst_id e)) @ [u8 (e_type e)] @ [u8 (weight e)] @ uvarint_encode_loop (nat (time e)) @ u16_le (e_flags e) @ [u8 (e_confidence e)] @ uvarint_encode_loop (nat (attr_ref e)) @ rest"
    using d by (simp add: edge_bytes_def)
  define o1 where "o1 = i + length (uvarint_encode_loop (nat (src_id e)))"
  have k1: "uvarint_ok (src_id e)" using ok by (simp add: edge_ok_def)
  have r1: "uvarint_decode buf i = Inr (src_id e, o1)"
    unfolding o1_def by (rule read_uvarint_at [OF k1 d0])
  have d1: "drop o1 buf = uvarint_encode_loop (nat (dst_id e)) @ [u8 (e_type e)] @ [u8 (weight e)] @ uvarint_encode_loop (nat (time e)) @ u16_le (e_flags e) @ [u8 (e_confidence e)] @ uvarint_encode_loop (nat (attr_ref e)) @ rest"
    unfolding o1_def by (rule drop_advance [OF d0])
  define o2 where "o2 = o1 + length (uvarint_encode_loop (nat (dst_id e)))"
  have k2: "uvarint_ok (dst_id e)" using ok by (simp add: edge_ok_def)
  have r2: "uvarint_decode buf o1 = Inr (dst_id e, o2)"
    unfolding o2_def by (rule read_uvarint_at [OF k2 d1])
  have d2: "drop o2 buf = [u8 (e_type e)] @ [u8 (weight e)] @ uvarint_encode_loop (nat (time e)) @ u16_le (e_flags e) @ [u8 (e_confidence e)] @ uvarint_encode_loop (nat (attr_ref e)) @ rest"
    unfolding o2_def by (rule drop_advance [OF d1])
  define o3 where "o3 = o2 + length ([u8 (e_type e)])"
  have k3: "byte_ok (e_type e)" using ok by (simp add: edge_ok_def)
  have r3: "read_u8 buf o2 = Inr (e_type e, o3)"
    unfolding o3_def by (rule read_u8_at [OF k3 d2])
  have d3: "drop o3 buf = [u8 (weight e)] @ uvarint_encode_loop (nat (time e)) @ u16_le (e_flags e) @ [u8 (e_confidence e)] @ uvarint_encode_loop (nat (attr_ref e)) @ rest"
    unfolding o3_def by (rule drop_advance [OF d2])
  define o4 where "o4 = o3 + length ([u8 (weight e)])"
  have k4: "byte_ok (weight e)" using ok by (simp add: edge_ok_def)
  have r4: "read_u8 buf o3 = Inr (weight e, o4)"
    unfolding o4_def by (rule read_u8_at [OF k4 d3])
  have d4: "drop o4 buf = uvarint_encode_loop (nat (time e)) @ u16_le (e_flags e) @ [u8 (e_confidence e)] @ uvarint_encode_loop (nat (attr_ref e)) @ rest"
    unfolding o4_def by (rule drop_advance [OF d3])
  define o5 where "o5 = o4 + length (uvarint_encode_loop (nat (time e)))"
  have k5: "uvarint_ok (time e)" using ok by (simp add: edge_ok_def)
  have r5: "uvarint_decode buf o4 = Inr (time e, o5)"
    unfolding o5_def by (rule read_uvarint_at [OF k5 d4])
  have d5: "drop o5 buf = u16_le (e_flags e) @ [u8 (e_confidence e)] @ uvarint_encode_loop (nat (attr_ref e)) @ rest"
    unfolding o5_def by (rule drop_advance [OF d4])
  define o6 where "o6 = o5 + length (u16_le (e_flags e))"
  have k6: "u16_ok (e_flags e)" using ok by (simp add: edge_ok_def)
  have r6: "read_u16 buf o5 = (e_flags e, o6)"
    unfolding o6_def by (rule read_u16_at [OF k6 d5])
  have d6: "drop o6 buf = [u8 (e_confidence e)] @ uvarint_encode_loop (nat (attr_ref e)) @ rest"
    unfolding o6_def by (rule drop_advance [OF d5])
  define o7 where "o7 = o6 + length ([u8 (e_confidence e)])"
  have k7: "byte_ok (e_confidence e)" using ok by (simp add: edge_ok_def)
  have r7: "read_u8 buf o6 = Inr (e_confidence e, o7)"
    unfolding o7_def by (rule read_u8_at [OF k7 d6])
  have d7: "drop o7 buf = uvarint_encode_loop (nat (attr_ref e)) @ rest"
    unfolding o7_def by (rule drop_advance [OF d6])
  define o8 where "o8 = o7 + length (uvarint_encode_loop (nat (attr_ref e)))"
  have k8: "uvarint_ok (attr_ref e)" using ok by (simp add: edge_ok_def)
  have r8: "uvarint_decode buf o7 = Inr (attr_ref e, o8)"
    unfolding o8_def by (rule read_uvarint_at [OF k8 d7])
  have d8: "drop o8 buf = rest"
    unfolding o8_def by (rule drop_advance [OF d7])
  have fin: "o8 = i + length (edge_bytes e)"
    by (simp add: edge_bytes_def o1_def o2_def o3_def o4_def o5_def o6_def o7_def o8_def)
  have "decode_edge buf i = Inr (e, o8)"
    by (simp add: decode_edge_def ebind_def r1 r2 r3 r4 r5 r6 r7 r8)
  then show ?thesis by (simp only: fin)
qed


lemma seq_bytes_Inr: "seq_bytes (Inr a # ps) = ebind (seq_bytes ps) (\<lambda>b. Inr (a @ b))"
  by (simp add: ebind_def)

lemma seq_bytes_append:
  "seq_bytes ps = Inr a \<Longrightarrow> seq_bytes qs = Inr b \<Longrightarrow> seq_bytes (ps @ qs) = Inr (a @ b)"
proof (induction ps arbitrary: a)
  case Nil
  then show ?case by simp
next
  case (Cons p ps)
  then show ?case by (auto simp: ebind_def split: sum.splits)
qed

lemma seq_bytes_nodes:
  "list_all node_ok ns \<Longrightarrow> seq_bytes (map encode_node ns) = Inr (concat (map node_bytes ns))"
  by (induction ns) (auto simp: ebind_def encode_node_ok)

lemma seq_bytes_edges:
  "list_all edge_ok es \<Longrightarrow> seq_bytes (map encode_edge es) = Inr (concat (map edge_bytes es))"
  by (induction es) (auto simp: ebind_def encode_edge_ok)

lemma encode_pgraph_ok:
  assumes "header_ok g"
  shows "encode_pgraph g = Inr (graph_bytes g)"
proof -
  let ?hd = "[Inr PG_MAGIC,
       uvarint_encode (graph_id g),
       Inr [u8 (graph_type g)],
       uvarint_encode (num_nodes g),
       uvarint_encode (num_edges g),
       uvarint_encode (source_id g),
       uvarint_encode (version g),
       Inr [u8 (schema_id g)]]"
  have h: "seq_bytes ?hd = Inr (PG_MAGIC @
     uvarint_encode_loop (nat (graph_id g)) @ [u8 (graph_type g)] @
     uvarint_encode_loop (nat (num_nodes g)) @ uvarint_encode_loop (nat (num_edges g)) @
     uvarint_encode_loop (nat (source_id g)) @ uvarint_encode_loop (nat (version g)) @
     [u8 (schema_id g)])"
    using assms by (simp add: header_ok_def uvarint_ok_def uvarint_encode_def ebind_def)
  have n: "seq_bytes (map encode_node (nodes g)) = Inr (concat (map node_bytes (nodes g)))"
    using assms by (simp add: header_ok_def seq_bytes_nodes)
  have e: "seq_bytes (map encode_edge (edges g)) = Inr (concat (map edge_bytes (edges g)))"
    using assms by (simp add: header_ok_def seq_bytes_edges)
  have f: "seq_bytes [uvarint_encode (int (length (features_bytes g))), Inr (features_bytes g)]
             = Inr (uvarint_encode_loop (length (features_bytes g)) @ features_bytes g)"
    by (simp add: uvarint_encode_def ebind_def)
  have "encode_pgraph g = seq_bytes (?hd @ map encode_node (nodes g) @ map encode_edge (edges g) @
          [uvarint_encode (int (length (features_bytes g))), Inr (features_bytes g)])"
    by (simp add: encode_pgraph_def features_bytes_def Let_def)
  also have "\<dots> = Inr (graph_bytes g)"
    using seq_bytes_append [OF h seq_bytes_append [OF n seq_bytes_append [OF e f]]]
    by (simp add: graph_bytes_def)
  finally show ?thesis .
qed

lemma decode_nodes_at:
  "list_all node_ok ns \<Longrightarrow> drop i buf = concat (map node_bytes ns) @ rest \<Longrightarrow>
     decode_nodes buf (length ns) i acc
       = Inr (acc @ ns, i + length (concat (map node_bytes ns)))"
proof (induction ns arbitrary: i acc)
  case Nil
  then show ?case by simp
next
  case (Cons n ns)
  have ok: "node_ok n" and oks: "list_all node_ok ns" using Cons.prems(1) by simp_all
  have d: "drop i buf = node_bytes n @ (concat (map node_bytes ns) @ rest)"
    using Cons.prems(2) by simp
  have r: "decode_node buf i = Inr (n, i + length (node_bytes n))"
    by (rule decode_node_at [OF ok d])
  have d': "drop (i + length (node_bytes n)) buf = concat (map node_bytes ns) @ rest"
    by (rule drop_advance [OF d])
  show ?case
    using Cons.IH [OF oks d', of "acc @ [n]"] r by (simp add: ebind_def add.assoc)
qed

lemma decode_edges_at:
  "list_all edge_ok es \<Longrightarrow> drop i buf = concat (map edge_bytes es) @ rest \<Longrightarrow>
     decode_edges buf (length es) i acc
       = Inr (acc @ es, i + length (concat (map edge_bytes es)))"
proof (induction es arbitrary: i acc)
  case Nil
  then show ?case by simp
next
  case (Cons e es)
  have ok: "edge_ok e" and oks: "list_all edge_ok es" using Cons.prems(1) by simp_all
  have d: "drop i buf = edge_bytes e @ (concat (map edge_bytes es) @ rest)"
    using Cons.prems(2) by simp
  have r: "decode_edge buf i = Inr (e, i + length (edge_bytes e))"
    by (rule decode_edge_at [OF ok d])
  have d': "drop (i + length (edge_bytes e)) buf = concat (map edge_bytes es) @ rest"
    by (rule drop_advance [OF d])
  show ?case
    using Cons.IH [OF oks d', of "acc @ [e]"] r by (simp add: ebind_def add.assoc)
qed

lemma decode_features_at:
  assumes "uvarint_ok (int (length fb))"
    and "drop i buf = uvarint_encode_loop (length fb) @ fb @ rest"
  shows "decode_features buf i
           = Inr (if fb = [] then None else Some fb,
                  i + length (uvarint_encode_loop (length fb)) + length fb)"
proof -
  have d0: "drop i buf = uvarint_encode_loop (nat (int (length fb))) @ (fb @ rest)"
    using assms(2) by simp
  have r: "uvarint_decode buf i
             = Inr (int (length fb), i + length (uvarint_encode_loop (nat (int (length fb)))))"
    by (rule read_uvarint_at [OF assms(1) d0])
  have d1: "drop (i + length (uvarint_encode_loop (nat (int (length fb))))) buf = fb @ rest"
    by (rule drop_advance [OF d0])
  show ?thesis
    using r d1 by (simp add: decode_features_def ebind_def Let_def)
qed

lemma decode_pgraph_at_bytes:
  assumes ok: "header_ok g" and fl: "uvarint_ok (int (length (features_bytes g)))"
  shows "decode_pgraph_at (graph_bytes g @ rest)
           = Inr (g\<lparr>g_features := (if features_bytes g = [] then None
                                     else Some (features_bytes g))\<rparr>,
                  length (graph_bytes g))"
proof -
  define buf where "buf = graph_bytes g @ rest"
  have m: "take 4 buf = PG_MAGIC"
    by (simp add: buf_def graph_bytes_def PG_MAGIC_def)
  define o0 where "o0 = (4::nat)"
  have d0: "drop o0 buf = uvarint_encode_loop (nat (graph_id g)) @ [u8 (graph_type g)] @ uvarint_encode_loop (nat (num_nodes g)) @ uvarint_encode_loop (nat (num_edges g)) @ uvarint_encode_loop (nat (source_id g)) @ uvarint_encode_loop (nat (version g)) @ [u8 (schema_id g)] @ concat (map node_bytes (nodes g)) @ concat (map edge_bytes (edges g)) @ uvarint_encode_loop (length (features_bytes g)) @ features_bytes g @ rest"
    by (simp add: buf_def o0_def graph_bytes_def PG_MAGIC_def)
  define o1 where "o1 = o0 + length (uvarint_encode_loop (nat (graph_id g)))"
  have k1: "uvarint_ok (graph_id g)" using ok unfolding header_ok_def by blast
  have r1: "uvarint_decode buf o0 = Inr (graph_id g, o1)"
    unfolding o1_def by (rule read_uvarint_at [OF k1 d0])
  have d1: "drop o1 buf = [u8 (graph_type g)] @ uvarint_encode_loop (nat (num_nodes g)) @ uvarint_encode_loop (nat (num_edges g)) @ uvarint_encode_loop (nat (source_id g)) @ uvarint_encode_loop (nat (version g)) @ [u8 (schema_id g)] @ concat (map node_bytes (nodes g)) @ concat (map edge_bytes (edges g)) @ uvarint_encode_loop (length (features_bytes g)) @ features_bytes g @ rest"
    unfolding o1_def by (rule drop_advance [OF d0])
  define o2 where "o2 = o1 + length ([u8 (graph_type g)])"
  have k2: "byte_ok (graph_type g)" using ok unfolding header_ok_def by blast
  have r2: "read_u8 buf o1 = Inr (graph_type g, o2)"
    unfolding o2_def by (rule read_u8_at [OF k2 d1])
  have d2: "drop o2 buf = uvarint_encode_loop (nat (num_nodes g)) @ uvarint_encode_loop (nat (num_edges g)) @ uvarint_encode_loop (nat (source_id g)) @ uvarint_encode_loop (nat (version g)) @ [u8 (schema_id g)] @ concat (map node_bytes (nodes g)) @ concat (map edge_bytes (edges g)) @ uvarint_encode_loop (length (features_bytes g)) @ features_bytes g @ rest"
    unfolding o2_def by (rule drop_advance [OF d1])
  define o3 where "o3 = o2 + length (uvarint_encode_loop (nat (num_nodes g)))"
  have k3: "uvarint_ok (num_nodes g)" using ok unfolding header_ok_def by blast
  have r3: "uvarint_decode buf o2 = Inr (num_nodes g, o3)"
    unfolding o3_def by (rule read_uvarint_at [OF k3 d2])
  have d3: "drop o3 buf = uvarint_encode_loop (nat (num_edges g)) @ uvarint_encode_loop (nat (source_id g)) @ uvarint_encode_loop (nat (version g)) @ [u8 (schema_id g)] @ concat (map node_bytes (nodes g)) @ concat (map edge_bytes (edges g)) @ uvarint_encode_loop (length (features_bytes g)) @ features_bytes g @ rest"
    unfolding o3_def by (rule drop_advance [OF d2])
  define o4 where "o4 = o3 + length (uvarint_encode_loop (nat (num_edges g)))"
  have k4: "uvarint_ok (num_edges g)" using ok unfolding header_ok_def by blast
  have r4: "uvarint_decode buf o3 = Inr (num_edges g, o4)"
    unfolding o4_def by (rule read_uvarint_at [OF k4 d3])
  have d4: "drop o4 buf = uvarint_encode_loop (nat (source_id g)) @ uvarint_encode_loop (nat (version g)) @ [u8 (schema_id g)] @ concat (map node_bytes (nodes g)) @ concat (map edge_bytes (edges g)) @ uvarint_encode_loop (length (features_bytes g)) @ features_bytes g @ rest"
    unfolding o4_def by (rule drop_advance [OF d3])
  define o5 where "o5 = o4 + length (uvarint_encode_loop (nat (source_id g)))"
  have k5: "uvarint_ok (source_id g)" using ok unfolding header_ok_def by blast
  have r5: "uvarint_decode buf o4 = Inr (source_id g, o5)"
    unfolding o5_def by (rule read_uvarint_at [OF k5 d4])
  have d5: "drop o5 buf = uvarint_encode_loop (nat (version g)) @ [u8 (schema_id g)] @ concat (map node_bytes (nodes g)) @ concat (map edge_bytes (edges g)) @ uvarint_encode_loop (length (features_bytes g)) @ features_bytes g @ rest"
    unfolding o5_def by (rule drop_advance [OF d4])
  define o6 where "o6 = o5 + length (uvarint_encode_loop (nat (version g)))"
  have k6: "uvarint_ok (version g)" using ok unfolding header_ok_def by blast
  have r6: "uvarint_decode buf o5 = Inr (version g, o6)"
    unfolding o6_def by (rule read_uvarint_at [OF k6 d5])
  have d6: "drop o6 buf = [u8 (schema_id g)] @ concat (map node_bytes (nodes g)) @ concat (map edge_bytes (edges g)) @ uvarint_encode_loop (length (features_bytes g)) @ features_bytes g @ rest"
    unfolding o6_def by (rule drop_advance [OF d5])
  define o7 where "o7 = o6 + length ([u8 (schema_id g)])"
  have k7: "byte_ok (schema_id g)" using ok unfolding header_ok_def by blast
  have r7: "read_u8 buf o6 = Inr (schema_id g, o7)"
    unfolding o7_def by (rule read_u8_at [OF k7 d6])
  have d7: "drop o7 buf = concat (map node_bytes (nodes g)) @ concat (map edge_bytes (edges g)) @ uvarint_encode_loop (length (features_bytes g)) @ features_bytes g @ rest"
    unfolding o7_def by (rule drop_advance [OF d6])
  have nn: "nat (num_nodes g) = length (nodes g)" and ne: "nat (num_edges g) = length (edges g)"
    using ok by (simp_all add: header_ok_def)
  have okn: "list_all node_ok (nodes g)" and oke: "list_all edge_ok (edges g)"
    using ok by (simp_all add: header_ok_def)
  define o8 where "o8 = o7 + length (concat (map node_bytes (nodes g)))"
  have r8: "decode_nodes buf (nat (num_nodes g)) o7 [] = Inr (nodes g, o8)"
    unfolding nn o8_def using decode_nodes_at [OF okn d7, of "[]"] by simp
  have d8: "drop o8 buf = concat (map edge_bytes (edges g)) @
              uvarint_encode_loop (length (features_bytes g)) @ features_bytes g @ rest"
    unfolding o8_def by (rule drop_advance [OF d7])
  define o9 where "o9 = o8 + length (concat (map edge_bytes (edges g)))"
  have r9: "decode_edges buf (nat (num_edges g)) o8 [] = Inr (edges g, o9)"
    unfolding ne o9_def using decode_edges_at [OF oke d8, of "[]"] by simp
  have d9: "drop o9 buf = uvarint_encode_loop (length (features_bytes g)) @ features_bytes g @ rest"
    unfolding o9_def by (rule drop_advance [OF d8])
  define o10 where "o10 = o9 + length (uvarint_encode_loop (length (features_bytes g)))
                            + length (features_bytes g)"
  have r10: "decode_features buf o9
               = Inr (if features_bytes g = [] then None else Some (features_bytes g), o10)"
    unfolding o10_def by (rule decode_features_at [OF fl d9])
  have fin: "o10 = length (graph_bytes g)"
    by (simp add: graph_bytes_def PG_MAGIC_def o0_def o1_def o2_def o3_def o4_def o5_def o6_def
        o7_def o8_def o9_def o10_def)
  have cnt: "num_nodes g = int (length (nodes g))" "num_edges g = int (length (edges g))"
    using ok by (simp_all add: header_ok_def)
  define F where "F = (if features_bytes g = [] then None else Some (features_bytes g))"
  have "decode_pgraph_at buf
          = Inr (\<lparr>graph_id = graph_id g, graph_type = graph_type g,
                  num_nodes = int (length (nodes g)), num_edges = int (length (edges g)),
                  g_features = F, source_id = source_id g, version = version g,
                  schema_id = schema_id g, nodes = nodes g, edges = edges g\<rparr>, o10)"
    using m r1 [unfolded o0_def]
    by (simp add: decode_pgraph_at_def ebind_def r2 r3 r4 r5 r6 r7 r8 r9 r10 F_def)
  moreover have "\<lparr>graph_id = graph_id g, graph_type = graph_type g,
                  num_nodes = int (length (nodes g)), num_edges = int (length (edges g)),
                  g_features = F, source_id = source_id g, version = version g,
                  schema_id = schema_id g, nodes = nodes g, edges = edges g\<rparr>
                 = g\<lparr>g_features := F\<rparr>"
    using cnt by (cases g) simp
  ultimately have "decode_pgraph_at buf
          = Inr (g\<lparr>g_features := (if features_bytes g = [] then None
                                     else Some (features_bytes g))\<rparr>, o10)"
    by (simp add: F_def)
  then show ?thesis by (simp only: fin buf_def)
qed

lemma enc_small: "uvarint_encode_loop 0 = [0]" "uvarint_encode_loop (Suc 0) = [1]"
  by (simp_all add: uvarint_encode_loop.simps)

text \<open>C1 (as stated, refuted): a graph whose thumbnail is the empty byte string (length 0)
  and whose other fields are in range is encoded with thumbnail length 0 and decoded with
  no thumbnail (\<open>None\<close>), so the decoded graph differs in \<open>g_features\<close>; and a graph
  whose \<open>graph_id\<close> is \<open>2 ^ 70\<close> is encoded to a varint of eleven bytes, which
  \<open>_uvarint_decode\<close> rejects as too large.\<close>

theorem roundtrip_counterexample:
  "header_ok (empty_graph\<lparr>g_features := Some []\<rparr>) \<and>
   length ([] :: bytes) \<in> {0, 64, 128} \<and>
   encode_pgraph (empty_graph\<lparr>g_features := Some []\<rparr>)
     = Inr [80, 71, 82, 65, 1, 5, 0, 0, 0, 1, 1, 0] \<and>
   decode_pgraph [80, 71, 82, 65, 1, 5, 0, 0, 0, 1, 1, 0] = Inr empty_graph \<and>
   empty_graph \<noteq> empty_graph\<lparr>g_features := Some []\<rparr> \<and>
   encode_pgraph (empty_graph\<lparr>graph_id := 2 ^ 70\<rparr>)
     = Inr [80, 71, 82, 65, 128, 128, 128, 128, 128, 128, 128, 128, 128, 128, 1,
            5, 0, 0, 0, 1, 1, 0] \<and>
   decode_pgraph [80, 71, 82, 65, 128, 128, 128, 128, 128, 128, 128, 128, 128, 128, 1,
            5, 0, 0, 0, 1, 1, 0] = Inl VarintTooLarge"
proof -
  let ?a = "empty_graph\<lparr>g_features := Some []\<rparr>"
  have h: "header_ok ?a"
    by (simp add: header_ok_def empty_graph_def uvarint_ok_def byte_ok_def)
  have ba: "graph_bytes ?a = [80, 71, 82, 65, 1, 5, 0, 0, 0, 1, 1, 0]"
    by (simp add: graph_bytes_def features_bytes_def empty_graph_def PG_MAGIC_def enc_small u8_def)
  have ea: "encode_pgraph ?a = Inr [80, 71, 82, 65, 1, 5, 0, 0, 0, 1, 1, 0]"
    using encode_pgraph_ok [OF h] ba by simp
  have "uvarint_ok (int (length (features_bytes ?a)))"
    by (simp add: features_bytes_def uvarint_ok_def)
  from decode_pgraph_at_bytes [OF h this, of "[]"]
  have da: "decode_pgraph [80, 71, 82, 65, 1, 5, 0, 0, 0, 1, 1, 0] = Inr empty_graph"
    unfolding ba by (simp add: decode_pgraph_def features_bytes_def empty_graph_def)
  have ne: "empty_graph \<noteq> ?a" by (simp add: empty_graph_def)
  have eb: "encode_pgraph (empty_graph\<lparr>graph_id := 2 ^ 70\<rparr>)
     = Inr [80, 71, 82, 65, 128, 128, 128, 128, 128, 128, 128, 128, 128, 128, 1,
            5, 0, 0, 0, 1, 1, 0]"
    by (simp add: encode_pgraph_def empty_graph_def PG_MAGIC_def uvarint_encode_def ebind_def
        uvarint_encode_loop.simps u8_def)
  have db: "decode_pgraph [80, 71, 82, 65, 128, 128, 128, 128, 128, 128, 128, 128, 128, 128, 1,
            5, 0, 0, 0, 1, 1, 0] = Inl VarintTooLarge"
    by (simp add: decode_pgraph_def decode_pgraph_at_def PG_MAGIC_def uvarint_decode_def
        ebind_def uvarint_decode_loop.simps)
  show ?thesis using h ea da ne eb db by simp
qed

text \<open>C1 (amended): for every graph whose varint-coded fields are at least 0 and below
  \<open>2 ^ 70\<close>, whose \<open>num_nodes\<close> and \<open>num_edges\<close> equal the list lengths, whose type codes,
  weights and confidences are in byte range, whose flags are in 16-bit range and whose
  thumbnail is \<open>None\<close> or a byte string of length 0, 64 or 128, \<open>encode_pgraph\<close> succeeds;
  unless the thumbnail is the empty byte string, \<open>decode_pgraph\<close> of the result is the graph
  itself, field for field (this includes the graph without nodes and edges); when the
  thumbnail is the empty byte string, \<open>decode_pgraph\<close> of the result is the graph with its
  thumbnail replaced by \<open>None\<close> and every other field as it was.\<close>

theorem pgraph_roundtrip:
  assumes "graph_ok g"
  shows "\<exists>bs. encode_pgraph g = Inr bs \<and>
              (g_features g \<noteq> Some [] \<longrightarrow> decode_pgraph bs = Inr g) \<and>
              (g_features g = Some [] \<longrightarrow> decode_pgraph bs = Inr (g\<lparr>g_features := None\<rparr>))"
proof -
  from assms have h: "header_ok g"
    and f: "case g_features g of None \<Rightarrow> True
            | Some bs \<Rightarrow> length bs = 0 \<or> length bs = 64 \<or> length bs = 128"
    by (simp_all add: graph_ok_def)
  have fl: "uvarint_ok (int (length (features_bytes g)))"
    using f by (auto simp: features_bytes_def uvarint_ok_def split: option.splits)
  have dec: "decode_pgraph (graph_bytes g)
               = Inr (g\<lparr>g_features := (if features_bytes g = [] then None
                                         else Some (features_bytes g))\<rparr>)"
    using decode_pgraph_at_bytes [OF h fl, of "[]"] by (simp add: decode_pgraph_def)
  have a: "decode_pgraph (graph_bytes g) = Inr g" if "g_features g \<noteq> Some []"
  proof -
    have "(if features_bytes g = [] then None else Some (features_bytes g)) = g_features g"
      using that by (auto simp: features_bytes_def split: option.splits)
    then show ?thesis using dec by simp
  qed
  have b: "decode_pgraph (graph_bytes g) = Inr (g\<lparr>g_features := None\<rparr>)"
    if "g_features g = Some []"
    using that dec by (simp add: features_bytes_def)
  show ?thesis using encode_pgraph_ok [OF h] a b by blast
qed

theorem pgraph_roundtrip_witness:
  "graph_ok empty_graph \<and>
   (\<exists>bs. encode_pgraph empty_graph = Inr bs \<and> decode_pgraph bs = Inr empty_graph) \<and>
   graph_ok thumb_graph \<and>
   (\<exists>bs. encode_pgraph thumb_graph = Inr bs \<and> decode_pgraph bs = Inr thumb_graph \<and>
         g_features thumb_graph = Some (replicate 64 200)) \<and>
   graph_ok (empty_graph\<lparr>g_features := Some []\<rparr>) \<and>
   (\<exists>bs. encode_pgraph (empty_graph\<lparr>g_features := Some []\<rparr>) = Inr bs \<and>
         decode_pgraph bs = Inr empty_graph)"
proof -
  have a: "graph_ok empty_graph"
    by (simp add: graph_ok_def header_ok_def empty_graph_def uvarint_ok_def byte_ok_def)
  have b: "graph_ok thumb_graph"
    by (simp add: graph_ok_def header_ok_def thumb_graph_def uvarint_ok_def byte_ok_def
        u16_ok_def node_ok_def edge_ok_def)
  have c: "graph_ok (empty_graph\<lparr>g_features := Some []\<rparr>)"
    by (simp add: graph_ok_def header_ok_def empty_graph_def uvarint_ok_def byte_ok_def)
  have fa: "g_features empty_graph \<noteq> Some []" by (simp add: empty_graph_def)
  have fb: "g_features thumb_graph = Some (replicate 64 200)" by (simp add: thumb_graph_def)
  then have fb': "g_features thumb_graph \<noteq> Some []" by simp
  have fc: "g_features (empty_graph\<lparr>g_features := Some []\<rparr>) = Some []" by simp
  have fc': "empty_graph\<lparr>g_features := Some [], g_features := None\<rparr> = empty_graph"
    by (simp add: empty_graph_def)
  from pgraph_roundtrip [OF a] fa
  have ra: "\<exists>bs. encode_pgraph empty_graph = Inr bs \<and> decode_pgraph bs = Inr empty_graph"
    by blast
  from pgraph_roundtrip [OF b] fb'
  have rb: "\<exists>bs. encode_pgraph thumb_graph = Inr bs \<and> decode_pgraph bs = Inr thumb_graph"
    by blast
  from pgraph_roundtrip [OF c] fc
  have "\<exists>bs. encode_pgraph (empty_graph\<lparr>g_features := Some []\<rparr>) = Inr bs \<and>
         decode_pgraph bs = Inr (empty_graph\<lparr>g_features := Some [], g_features := None\<rparr>)"
    by blast
  then have rc: "\<exists>bs. encode_pgraph (empty_graph\<lparr>g_features := Some []\<rparr>) = Inr bs \<and>
         decode_pgraph bs = Inr empty_graph"
    unfolding fc' .
  show ?thesis using a b c ra rb rc fb by blast
qed

subsection \<open>Reads past the end of the buffer\<close>

lemma ebind_InrE:
  assumes "ebind m f = Inr y"
  obtains x where "m = Inr x" and "f x = Inr y"
  using assms by (cases m) (auto simp: ebind_def)

lemma ebind_eq_Inr_iff: "ebind m f = Inr y \<longleftrightarrow> (\<exists>x. m = Inr x \<and> f x = Inr y)"
  by (cases m) (auto simp: ebind_def)

lemma uvarint_decode_loop_ext:
  "uvarint_decode_loop pre i s v = Inr (x, j) \<Longrightarrow>
     uvarint_decode_loop (pre @ ext) i s v = Inr (x, j) \<and> i < j \<and> j \<le> length pre"
proof (induction pre i s v rule: uvarint_decode_loop.induct)
  case (1 buf i shift v)
  from "1.prems" have i: "i < length buf"
    by (subst (asm) uvarint_decode_loop.simps) (auto split: if_splits)
  then have nth: "(buf @ ext) ! i = buf ! i" and i': "i < length (buf @ ext)"
    by (simp_all add: nth_append)
  show ?case
  proof (cases "unat (buf ! i) AND 0x80 = 0")
    case True
    then have "uvarint_decode_loop buf i shift v
                 = Inr (v OR push_bit shift (unat (buf ! i) AND 0x7F), i + 1)"
      using i by (subst uvarint_decode_loop.simps) (simp add: Let_def)
    moreover have "uvarint_decode_loop (buf @ ext) i shift v
                 = Inr (v OR push_bit shift (unat (buf ! i) AND 0x7F), i + 1)"
      using i' True nth by (subst uvarint_decode_loop.simps) (simp add: Let_def)
    ultimately show ?thesis using "1.prems" i by auto
  next
    case False
    from "1.prems" False i have s: "\<not> shift + 7 > 63"
      by (subst (asm) uvarint_decode_loop.simps) (auto simp: Let_def split: if_splits)
    have eq: "uvarint_decode_loop buf i shift v
                 = uvarint_decode_loop buf (i + 1) (shift + 7)
                     (v OR push_bit shift (unat (buf ! i) AND 0x7F))"
      using i False s by (subst uvarint_decode_loop.simps) (simp add: Let_def)
    have eq': "uvarint_decode_loop (buf @ ext) i shift v
                 = uvarint_decode_loop (buf @ ext) (i + 1) (shift + 7)
                     (v OR push_bit shift (unat (buf ! i) AND 0x7F))"
      using i' False s nth by (subst uvarint_decode_loop.simps) (simp add: Let_def)
    have "\<not> length buf \<le> i" using i by simp
    from "1.IH" [OF this refl refl refl False refl s] "1.prems" eq
    have "uvarint_decode_loop (buf @ ext) (i + 1) (shift + 7)
             (v OR push_bit shift (unat (buf ! i) AND 0x7F)) = Inr (x, j) \<and>
          i + 1 < j \<and> j \<le> length buf"
      by simp
    then show ?thesis using eq' by simp
  qed
qed

lemma uvarint_decode_ext:
  assumes "uvarint_decode pre i = Inr (x, j)"
  shows "uvarint_decode (pre @ ext) i = Inr (x, j) \<and> i < j \<and> j \<le> length pre"
proof -
  from assms obtain v where l: "uvarint_decode_loop pre i 0 0 = Inr (v, j)" and x: "x = int v"
    by (auto simp: uvarint_decode_def split: sum.splits prod.splits)
  from uvarint_decode_loop_ext [OF l, of ext] show ?thesis
    using x by (simp add: uvarint_decode_def)
qed

lemma read_u8_ext:
  assumes "read_u8 pre i = Inr (x, j)"
  shows "read_u8 (pre @ ext) i = Inr (x, j) \<and> i < j \<and> j \<le> length pre"
  using assms by (auto simp: read_u8_def nth_append split: if_splits)

lemma read_u16_ext:
  assumes "read_u16 pre i = (x, j)" and "j \<le> length pre"
  shows "read_u16 (pre @ ext) i = (x, j) \<and> i < j"
  using assms by (auto simp: read_u16_def)

lemma decode_node_ext:
  assumes a: "decode_node pre i = Inr (n, j)"
  shows "decode_node (pre @ ext) i = Inr (n, j) \<and> i < j \<and> j \<le> length pre"
proof -
  from a obtain x1 i1 x2 i2 x3 i3 x4 i4 x5 i5 x6 i6 x7 i7 x8 i8 x9 i9 where
    r1: "uvarint_decode pre i = Inr (x1, i1)"
    and r2: "read_u8 pre i1 = Inr (x2, i2)"
    and r3: "read_u8 pre i2 = Inr (x3, i3)"
    and r4: "uvarint_decode pre i3 = Inr (x4, i4)"
    and r5: "uvarint_decode pre i4 = Inr (x5, i5)"
    and r6: "uvarint_decode pre i5 = Inr (x6, i6)"
    and r7: "read_u16 pre i6 = (x7, i7)"
    and r8: "read_u8 pre i7 = Inr (x8, i8)"
    and r9: "uvarint_decode pre i8 = Inr (x9, i9)"
    and res: "n = \<lparr>node_id = x1, n_type = x2, sub_type = x3, features_ref = x4, span = (x5, x6), n_flags = x7, n_confidence = x8, label_id = x9\<rparr>" "j = i9"
    unfolding decode_node_def
    by (auto simp: ebind_eq_Inr_iff read_u16_def)
  note e1 = uvarint_decode_ext [OF r1, of ext]
  note e2 = read_u8_ext [OF r2, of ext]
  note e3 = read_u8_ext [OF r3, of ext]
  note e4 = uvarint_decode_ext [OF r4, of ext]
  note e5 = uvarint_decode_ext [OF r5, of ext]
  note e6 = uvarint_decode_ext [OF r6, of ext]
  note e8 = read_u8_ext [OF r8, of ext]
  note e9 = uvarint_decode_ext [OF r9, of ext]
  have b7: "i7 \<le> length pre" using r7 e8 by (simp add: read_u16_def)
  note e7 = read_u16_ext [OF r7 b7, of ext]
  have "decode_node (pre @ ext) i = Inr (n, j)"
    using e1 e2 e3 e4 e5 e6 e7 e8 e9 res by (simp add: decode_node_def ebind_def)
  moreover have "i < j \<and> j \<le> length pre"
    using e1 e2 e3 e4 e5 e6 e7 e8 e9 res by simp
  ultimately show ?thesis by blast
qed

lemma decode_edge_ext:
  assumes a: "decode_edge pre i = Inr (e, j)"
  shows "decode_edge (pre @ ext) i = Inr (e, j) \<and> i < j \<and> j \<le> length pre"
proof -
  from a obtain x1 i1 x2 i2 x3 i3 x4 i4 x5 i5 x6 i6 x7 i7 x8 i8 where
    r1: "uvarint_decode pre i = Inr (x1, i1)"
    and r2: "uvarint_decode pre i1 = Inr (x2, i2)"
    and r3: "read_u8 pre i2 = Inr (x3, i3)"
    and r4: "read_u8 pre i3 = Inr (x4, i4)"
    and r5: "uvarint_decode pre i4 = Inr (x5, i5)"
    and r6: "read_u16 pre i5 = (x6, i6)"
    and r7: "read_u8 pre i6 = Inr (x7, i7)"
    and r8: "uvarint_decode pre i7 = Inr (x8, i8)"
    and res: "e = \<lparr>src_id = x1, dst_id = x2, e_type = x3, weight = x4, time = x5, e_flags = x6, e_confidence = x7, attr_ref = x8\<rparr>" "j = i8"
    unfolding decode_edge_def
    by (auto simp: ebind_eq_Inr_iff read_u16_def)
  note e1 = uvarint_decode_ext [OF r1, of ext]
  note e2 = uvarint_decode_ext [OF r2, of ext]
  note e3 = read_u8_ext [OF r3, of ext]
  note e4 = read_u8_ext [OF r4, of ext]
  note e5 = uvarint_decode_ext [OF r5, of ext]
  note e7 = read_u8_ext [OF r7, of ext]
  note e8 = uvarint_decode_ext [OF r8, of ext]
  have b6: "i6 \<le> length pre" using r6 e7 by (simp add: read_u16_def)
  note e6 = read_u16_ext [OF r6 b6, of ext]
  have "decode_edge (pre @ ext) i = Inr (e, j)"
    using e1 e2 e3 e4 e5 e6 e7 e8 res by (simp add: decode_edge_def ebind_def)
  moreover have "i < j \<and> j \<le> length pre"
    using e1 e2 e3 e4 e5 e6 e7 e8 res by simp
  ultimately show ?thesis by blast
qed


lemma decode_nodes_ext:
  "decode_nodes pre c i acc = Inr (ns, j) \<Longrightarrow>
     decode_nodes (pre @ ext) c i acc = Inr (ns, j) \<and> i \<le> j \<and>
     (i \<le> length pre \<longrightarrow> j \<le> length pre)"
proof (induction c arbitrary: i acc)
  case 0
  then show ?case by simp
next
  case (Suc c)
  from Suc.prems obtain n i1 where r: "decode_node pre i = Inr (n, i1)"
    and rest: "decode_nodes pre c i1 (acc @ [n]) = Inr (ns, j)"
    by (auto simp: ebind_eq_Inr_iff)
  note e = decode_node_ext [OF r, of ext]
  note ih = Suc.IH [OF rest]
  show ?case using e ih by (simp add: ebind_def)
qed

lemma decode_edges_ext:
  "decode_edges pre c i acc = Inr (es, j) \<Longrightarrow>
     decode_edges (pre @ ext) c i acc = Inr (es, j) \<and> i \<le> j \<and>
     (i \<le> length pre \<longrightarrow> j \<le> length pre)"
proof (induction c arbitrary: i acc)
  case 0
  then show ?case by simp
next
  case (Suc c)
  from Suc.prems obtain e i1 where r: "decode_edge pre i = Inr (e, i1)"
    and rest: "decode_edges pre c i1 (acc @ [e]) = Inr (es, j)"
    by (auto simp: ebind_eq_Inr_iff)
  note e = decode_edge_ext [OF r, of ext]
  note ih = Suc.IH [OF rest]
  show ?case using e ih by (simp add: ebind_def)
qed

lemma decode_features_ext:
  assumes a: "decode_features pre i = Inr (f, j)"
  shows "decode_features (pre @ ext) i = Inr (f, j) \<and> i < j \<and> j \<le> length pre"
proof -
  from a obtain fl i1 where r: "uvarint_decode pre i = Inr (fl, i1)"
    and rest: "(if fl \<noteq> 0 then
         (let g_features' = take (nat fl) (drop i1 pre)
          in if int (length g_features') \<noteq> fl then Inl TruncatedFeatures
             else Inr (Some g_features', i1 + nat fl))
       else Inr (None, i1)) = Inr (f, j)"
    by (auto simp: decode_features_def ebind_eq_Inr_iff)
  note e = uvarint_decode_ext [OF r, of ext]
  show ?thesis
  proof (cases "fl = 0")
    case True
    then show ?thesis using e rest by (simp add: decode_features_def ebind_def)
  next
    case False
    from rest False have len: "int (length (take (nat fl) (drop i1 pre))) = fl"
      and f: "f = Some (take (nat fl) (drop i1 pre))" and j: "j = i1 + nat fl"
      by (auto simp: Let_def split: if_splits)
    from len have "nat fl \<le> length pre - i1" by (simp add: min_def split: if_splits)
    moreover have "i1 \<le> length pre" using e by simp
    ultimately have fit: "i1 + nat fl \<le> length pre" by simp
    then have same: "take (nat fl) (drop i1 (pre @ ext)) = take (nat fl) (drop i1 pre)"
      by simp
    have "0 < nat fl" using len False by linarith
    then show ?thesis
      using e False len f j fit same by (simp add: decode_features_def ebind_def Let_def)
  qed
qed


lemma decode_pgraph_at_ext:
  assumes a: "decode_pgraph_at pre = Inr (g, j)"
  shows "decode_pgraph_at (pre @ ext) = Inr (g, j) \<and> 4 < j \<and> j \<le> length pre"
proof -
  from a have m: "take 4 pre = PG_MAGIC"
    by (auto simp: decode_pgraph_at_def split: if_splits)
  then have "length (take 4 pre) = 4" by (simp add: PG_MAGIC_def)
  then have l4: "4 \<le> length pre" by (simp add: min_def split: if_splits)
  then have m': "take 4 (pre @ ext) = PG_MAGIC" using m by simp
  from a m obtain x1 i1 x2 i2 x3 i3 x4 i4 x5 i5 x6 i6 x7 i7 x8 i8 x9 i9 x10 i10 where
    r1: "uvarint_decode pre 4 = Inr (x1, i1)"
    and r2: "read_u8 pre i1 = Inr (x2, i2)"
    and r3: "uvarint_decode pre i2 = Inr (x3, i3)"
    and r4: "uvarint_decode pre i3 = Inr (x4, i4)"
    and r5: "uvarint_decode pre i4 = Inr (x5, i5)"
    and r6: "uvarint_decode pre i5 = Inr (x6, i6)"
    and r7: "read_u8 pre i6 = Inr (x7, i7)"
    and r8: "decode_nodes pre (nat x3) i7 [] = Inr (x8, i8)"
    and r9: "decode_edges pre (nat x4) i8 [] = Inr (x9, i9)"
    and r10: "decode_features pre i9 = Inr (x10, i10)"
    and res: "g = \<lparr>graph_id = x1, graph_type = x2,
              num_nodes = int (length x8), num_edges = int (length x9),
              g_features = x10, source_id = x5, version = x6,
              schema_id = x7, nodes = x8, edges = x9\<rparr>" "j = i10"
    unfolding decode_pgraph_at_def
    by (auto simp: ebind_eq_Inr_iff)
  note e1 = uvarint_decode_ext [OF r1, of ext]
  note e2 = read_u8_ext [OF r2, of ext]
  note e3 = uvarint_decode_ext [OF r3, of ext]
  note e4 = uvarint_decode_ext [OF r4, of ext]
  note e5 = uvarint_decode_ext [OF r5, of ext]
  note e6 = uvarint_decode_ext [OF r6, of ext]
  note e7 = read_u8_ext [OF r7, of ext]
  note e8 = decode_nodes_ext [OF r8, of ext]
  note e9 = decode_edges_ext [OF r9, of ext]
  note e10 = decode_features_ext [OF r10, of ext]
  have "decode_pgraph_at (pre @ ext) = Inr (g, j)"
    using m' e1 e2 e3 e4 e5 e6 e7 e8 e9 e10 res
    by (simp add: decode_pgraph_at_def ebind_def)
  moreover have "4 < j \<and> j \<le> length pre"
    using e1 e2 e3 e4 e5 e6 e7 e8 e9 e10 res by simp
  ultimately show ?thesis by blast
qed

text \<open>C2: a call of \<open>decode_pgraph\<close> that returns a graph has read only inside the
  buffer: its final offset is at most the length of the buffer, and the same call on any
  prefix of the buffer that is shorter than what was read fails. Read by read: a buffer
  shorter than the magic fails; a single byte or a varint read at or past the end fails;
  after a two-byte flags read that reaches past the end the next read fails; a thumbnail
  longer than the rest of the buffer fails. A failure is an \<open>Inl\<close>, which carries no
  graph; a graph is only returned by a run that reached its end.\<close>

theorem decode_past_end_fails:
  "(decode_pgraph_at buf = Inr (g, i) \<longrightarrow>
      i \<le> length buf \<and> (\<forall>k < i. \<exists>e. decode_pgraph (take k buf) = Inl e)) \<and>
   (decode_pgraph buf = Inr g \<longleftrightarrow> (\<exists>i. decode_pgraph_at buf = Inr (g, i))) \<and>
   (length buf < 4 \<longrightarrow> decode_pgraph buf = Inl InvalidMagic) \<and>
   (length buf \<le> j \<longrightarrow> read_u8 buf j = Inl IndexError
                         \<and> uvarint_decode buf j = Inl TruncatedVarint) \<and>
   (length buf < j + 2 \<longrightarrow> read_u8 buf (snd (read_u16 buf j)) = Inl IndexError) \<and>
   (uvarint_decode buf j = Inr (n, j') \<and> int (length buf) < int j' + n \<longrightarrow>
       decode_features buf j = Inl TruncatedFeatures)"
proof -
  have main: "i \<le> length buf \<and> (\<forall>k < i. \<exists>e. decode_pgraph (take k buf) = Inl e)"
    if a: "decode_pgraph_at buf = Inr (g, i)"
  proof
    show "i \<le> length buf" using decode_pgraph_at_ext [OF a, of "[]"] by simp
    show "\<forall>k < i. \<exists>e. decode_pgraph (take k buf) = Inl e"
    proof (intro allI impI)
      fix k assume k: "k < i"
      show "\<exists>e. decode_pgraph (take k buf) = Inl e"
      proof (cases "decode_pgraph_at (take k buf)")
        case (Inl e)
        then show ?thesis by (simp add: decode_pgraph_def)
      next
        case (Inr r)
        obtain g' i' where r: "r = (g', i')" by (cases r)
        from decode_pgraph_at_ext [OF Inr [unfolded r], of "drop k buf"]
        have "decode_pgraph_at buf = Inr (g', i')" and "i' \<le> length (take k buf)" by simp_all
        then have "i' = i" and "i' \<le> k" using a by simp_all
        then show ?thesis using k by simp
      qed
    qed
  qed
  have magic: "decode_pgraph buf = Inl InvalidMagic" if "length buf < 4"
  proof -
    have "length (take 4 buf) \<noteq> length PG_MAGIC" using that by (simp add: PG_MAGIC_def)
    then have "take 4 buf \<noteq> PG_MAGIC" by metis
    then show ?thesis by (simp add: decode_pgraph_def decode_pgraph_at_def)
  qed
  have single: "read_u8 buf j = Inl IndexError \<and> uvarint_decode buf j = Inl TruncatedVarint"
    if "length buf \<le> j"
    using that by (simp add: read_u8_def uvarint_decode_def uvarint_decode_loop.simps)
  have flags: "read_u8 buf (snd (read_u16 buf j)) = Inl IndexError" if "length buf < j + 2"
    using that by (simp add: read_u8_def read_u16_def)
  have thumb: "decode_features buf j = Inl TruncatedFeatures"
    if "uvarint_decode buf j = Inr (n, j') \<and> int (length buf) < int j' + n"
  proof -
    from that have r: "uvarint_decode buf j = Inr (n, j')" and lt: "int (length buf) < int j' + n"
      by simp_all
    have "j' \<le> length buf" using uvarint_decode_ext [OF r, of "[]"] by simp
    then have "n \<noteq> 0" and "int (length (take (nat n) (drop j' buf))) \<noteq> n"
      using lt by (auto simp: min_def)
    then show ?thesis using r by (simp add: decode_features_def ebind_def Let_def)
  qed
  have whole: "decode_pgraph buf = Inr g \<longleftrightarrow> (\<exists>i. decode_pgraph_at buf = Inr (g, i))"
    by (auto simp: decode_pgraph_def split: sum.splits)
  show ?thesis using main whole magic single flags thumb by blast
qed

theorem decode_past_end_fails_witness:
  "decode_pgraph_at [80, 71, 82, 65, 1, 5, 0, 0, 0, 1, 1, 0] = Inr (empty_graph, 12) \<and>
   (\<exists>e. decode_pgraph [80, 71, 82, 65, 1, 5, 0] = Inl e) \<and>
   decode_pgraph [80, 71] = Inl InvalidMagic \<and>
   read_u8 [80, 71] 2 = Inl IndexError \<and>
   uvarint_decode [80, 71] 2 = Inl TruncatedVarint \<and>
   read_u8 [80, 71] (snd (read_u16 [80, 71] 1)) = Inl IndexError \<and>
   decode_features [5, 1, 2] 0 = Inl TruncatedFeatures"
proof -
  let ?b = "[80, 71, 82, 65, 1, 5, 0, 0, 0, 1, 1, 0] :: bytes"
  have d: "decode_pgraph_at ?b = Inr (empty_graph, 12)"
    by (simp add: decode_pgraph_at_def PG_MAGIC_def uvarint_decode_def read_u8_def
        decode_features_def ebind_def uvarint_decode_loop.simps empty_graph_def)
  from decode_past_end_fails [of ?b empty_graph 12 12 0 0] d
  have "\<forall>k < 12. \<exists>e. decode_pgraph (take k ?b) = Inl e" by blast
  then have "(7::nat) < 12 \<longrightarrow> (\<exists>e. decode_pgraph (take 7 ?b) = Inl e)" by (rule spec)
  then have t: "\<exists>e. decode_pgraph [80, 71, 82, 65, 1, 5, 0] = Inl e" by simp
  have u: "uvarint_decode [5, 1, 2] 0 = Inr (5, 1)"
    by (simp add: uvarint_decode_def uvarint_decode_loop.simps)
  from decode_past_end_fails [of "[80, 71]" empty_graph 0 2 0 0]
  have m: "decode_pgraph [80, 71] = Inl InvalidMagic"
    and s: "read_u8 [80, 71] 2 = Inl IndexError \<and> uvarint_decode [80, 71] 2 = Inl TruncatedVarint"
    by simp_all
  from decode_past_end_fails [of "[80, 71]" empty_graph 0 1 0 0]
  have f: "read_u8 [80, 71] (snd (read_u16 [80, 71] 1)) = Inl IndexError" by simp
  from decode_past_end_fails [of "[5, 1, 2]" empty_graph 0 0 5 1] u
  have th: "decode_features [5, 1, 2] 0 = Inl TruncatedFeatures" by simp
  show ?thesis using d t m s f th by blast
qed
section \<open>Properties of the vocabulary\<close>

lemma vocab_inv_init: "vocab_inv Vocab_init"
  by (simp add: vocab_inv_def Vocab_init_def)

lemma vocab_invD:
  "vocab_inv v \<Longrightarrow> tok2id v s = Some i \<Longrightarrow>
     1 \<le> i \<and> i \<le> int (length (id2tok v)) \<and> id2tok v ! nat (i - 1) = s"
  by (simp add: vocab_inv_def)

lemma vocab_inv_get_id:
  assumes "vocab_inv v"
  shows "vocab_inv (snd (get_id s v))"
proof (cases "tok2id v s")
  case (Some i)
  then show ?thesis using assms by (simp add: get_id_def)
next
  case None
  show ?thesis
    unfolding vocab_inv_def
  proof (intro allI impI)
    fix t j
    assume h: "tok2id (snd (get_id s v)) t = Some j"
    show "1 \<le> j \<and> j \<le> int (length (id2tok (snd (get_id s v)))) \<and>
          id2tok (snd (get_id s v)) ! nat (j - 1) = t"
    proof (cases "t = s")
      case True
      then show ?thesis using h None by (auto simp: get_id_def Let_def nth_append)
    next
      case False
      then have "tok2id v t = Some j" using h None by (simp add: get_id_def Let_def)
      from vocab_invD [OF assms this]
      have "1 \<le> j" and "j \<le> int (length (id2tok v))" and "id2tok v ! nat (j - 1) = t"
        by simp_all
      moreover from this have "nat (j - 1) < length (id2tok v)" by linarith
      ultimately show ?thesis
        using None by (simp add: get_id_def Let_def nth_append)
    qed
  qed
qed

lemma vocab_inv_get_ids: "vocab_inv v \<Longrightarrow> vocab_inv (get_ids ss v)"
  by (induction ss arbitrary: v) (auto simp: vocab_inv_get_id)

lemma get_id_stored: "tok2id (snd (get_id s v)) s = Some (fst (get_id s v))"
  by (auto simp: get_id_def Let_def split: option.splits)

lemma get_id_keeps: "tok2id v s = Some i \<Longrightarrow> tok2id (snd (get_id t v)) s = Some i"
  by (auto simp: get_id_def Let_def split: option.splits)

lemma get_ids_keeps: "tok2id v s = Some i \<Longrightarrow> tok2id (get_ids ts v) s = Some i"
  by (induction ts arbitrary: v) (auto simp: get_id_keeps)

lemma get_id_known: "tok2id v s = Some i \<Longrightarrow> get_id s v = (i, v)"
  by (simp add: get_id_def)

lemma get_id_fresh_or_known:
  assumes "vocab_inv v" and "tok2id v s = Some i" and "s \<noteq> t"
  shows "fst (get_id t v) \<noteq> i"
proof (cases "tok2id v t")
  case None
  then show ?thesis using vocab_invD [OF assms(1,2)] by (simp add: get_id_def Let_def)
next
  case (Some j)
  then show ?thesis
    using vocab_invD [OF assms(1,2)] vocab_invD [OF assms(1) Some] assms(3)
    by (auto simp: get_id_def)
qed

lemma get_id_positive: "vocab_inv v \<Longrightarrow> 1 \<le> fst (get_id s v)"
  by (cases "tok2id v s") (auto simp: get_id_def Let_def dest: vocab_invD)

text \<open>C9: within one Vocab instance (any state reached from a fresh instance by
  \<open>get_id\<close> calls), \<open>get_id\<close> returns for a string the id it returned before, however
  many other strings were interned in between, and a repeated call leaves the instance as
  it is; two distinct strings never receive the same id; the first string interned
  receives id 1; and id 0 is never returned.\<close>

theorem get_id_idempotent_injective:
  "fst (get_id s (get_ids ts (snd (get_id s (get_ids ss Vocab_init)))))
     = fst (get_id s (get_ids ss Vocab_init)) \<and>
   snd (get_id s (snd (get_id s (get_ids ss Vocab_init)))) = snd (get_id s (get_ids ss Vocab_init)) \<and>
   (s \<noteq> t \<longrightarrow>
      fst (get_id t (get_ids ts (snd (get_id s (get_ids ss Vocab_init)))))
        \<noteq> fst (get_id s (get_ids ss Vocab_init))) \<and>
   fst (get_id s Vocab_init) = 1 \<and>
   fst (get_id s (get_ids ss Vocab_init)) \<noteq> 0"
proof -
  define v where "v = get_ids ss Vocab_init"
  define i where "i = fst (get_id s v)"
  define v1 where "v1 = snd (get_id s v)"
  define v2 where "v2 = get_ids ts v1"
  have inv: "vocab_inv v" unfolding v_def by (rule vocab_inv_get_ids [OF vocab_inv_init])
  have inv2: "vocab_inv v2" unfolding v2_def v1_def
    by (rule vocab_inv_get_ids [OF vocab_inv_get_id [OF inv]])
  have st1: "tok2id v1 s = Some i" unfolding v1_def i_def by (rule get_id_stored)
  have st2: "tok2id v2 s = Some i" unfolding v2_def by (rule get_ids_keeps [OF st1])
  have a: "fst (get_id s v2) = i" using get_id_known [OF st2] by simp
  have b: "snd (get_id s v1) = v1" using get_id_known [OF st1] by simp
  have c: "s \<noteq> t \<longrightarrow> fst (get_id t v2) \<noteq> i"
    using get_id_fresh_or_known [OF inv2 st2] by blast
  have d: "fst (get_id s Vocab_init) = 1" by (simp add: get_id_def Vocab_init_def)
  have e: "i \<noteq> 0" using get_id_positive [OF inv, of s] unfolding i_def by simp
  show ?thesis using a b c d e unfolding v_def i_def v1_def v2_def by simp
qed

theorem get_id_idempotent_injective_witness:
  "fst (get_id [104, 105] (get_ids [[121, 111]] (snd (get_id [104, 105] (get_ids [[97]] Vocab_init))))) = 2 \<and>
   fst (get_id [104, 105] (get_ids [[97]] Vocab_init)) = 2 \<and>
   fst (get_id [98] (get_ids [[121, 111]] (snd (get_id [104, 105] (get_ids [[97]] Vocab_init))))) = 4"
  using get_id_idempotent_injective [of "[104, 105]" "[[121, 111]]" "[[97]]" "[98]"]
  by (simp add: get_id_def Vocab_init_def)

section \<open>Properties of the sentence segmenter\<close>

lemma chain_snoc: "chain a xs s \<Longrightarrow> s < e \<Longrightarrow> chain a (xs @ [(s, e)]) e"
  by (induction a xs s rule: chain.induct) auto

lemma chain_starts_ge: "chain a xs b \<Longrightarrow> m < length xs \<Longrightarrow> a \<le> fst (xs ! m) \<and> a < snd (xs ! m)"
proof (induction a xs b arbitrary: m rule: chain.induct)
  case (1 a b)
  then show ?case by simp
next
  case (2 a x y rest b)
  show ?case
  proof (cases m)
    case 0
    then show ?thesis using 2 by simp
  next
    case (Suc m')
    then have "m' < length rest" using "2.prems" by simp
    moreover have "chain y rest b" and "a < y" using "2.prems" by simp_all
    ultimately have "y \<le> fst (rest ! m') \<and> y < snd (rest ! m')" using "2.IH" by blast
    then show ?thesis using Suc \<open>a < y\<close> by simp
  qed
qed

lemma chain_le: "chain a xs b \<Longrightarrow> a \<le> b"
  by (induction a xs b rule: chain.induct) auto

lemma chain_unique_cover:
  "chain a xs b \<Longrightarrow> a \<le> i \<Longrightarrow> i < b \<Longrightarrow>
     \<exists>!m. m < length xs \<and> fst (xs ! m) \<le> i \<and> i < snd (xs ! m)"
proof (induction a xs b rule: chain.induct)
  case (1 a b)
  then show ?case by simp
next
  case (2 a x y rest b)
  then have c: "chain y rest b" and xa: "x = a" and xy: "x < y" by simp_all
  show ?case
  proof (cases "i < y")
    case True
    have no: "\<not> fst (rest ! m) \<le> i" if "m < length rest" for m
      using chain_starts_ge [OF c that] True by simp
    show ?thesis
    proof (rule ex1I [of _ 0])
      show "0 < length ((x, y) # rest) \<and> fst (((x, y) # rest) ! 0) \<le> i \<and>
            i < snd (((x, y) # rest) ! 0)"
        using True xa "2.prems" by simp
    next
      fix m
      assume "m < length ((x, y) # rest) \<and> fst (((x, y) # rest) ! m) \<le> i \<and>
              i < snd (((x, y) # rest) ! m)"
      then show "m = 0" using no [of "m - 1"] by (cases m) auto
    qed
  next
    case False
    then have "\<exists>!m. m < length rest \<and> fst (rest ! m) \<le> i \<and> i < snd (rest ! m)"
      using "2.IH" c "2.prems" by simp
    then obtain m where m: "m < length rest" "fst (rest ! m) \<le> i" "i < snd (rest ! m)"
      and u: "\<And>m'. m' < length rest \<Longrightarrow> fst (rest ! m') \<le> i \<Longrightarrow> i < snd (rest ! m')
                  \<Longrightarrow> m' = m"
      by blast
    show ?thesis
    proof (rule ex1I [of _ "Suc m"])
      show "Suc m < length ((x, y) # rest) \<and> fst (((x, y) # rest) ! Suc m) \<le> i \<and>
            i < snd (((x, y) # rest) ! Suc m)"
        using m by simp
    next
      fix m'
      assume h: "m' < length ((x, y) # rest) \<and> fst (((x, y) # rest) ! m') \<le> i \<and>
              i < snd (((x, y) # rest) ! m')"
      show "m' = Suc m"
      proof (cases m')
        case 0
        then show ?thesis using h False by simp
      next
        case (Suc m'')
        then show ?thesis using h u [of m''] by simp
      qed
    qed
  qed
qed

lemma extend_weak_lt:
  "end' < length tokens \<Longrightarrow> extend_weak tokens end' j < length tokens"
proof (induction tokens end' j rule: extend_weak.induct)
  case (1 tokens end' j)
  show ?case
  proof (cases "j < length tokens \<and> has_flag (t_flags (tokens ! j)) TF_SENT_END_WEAK")
    case True
    then show ?thesis using "1.IH" by (subst extend_weak.simps) simp
  next
    case False
    then show ?thesis using "1.prems" by (subst extend_weak.simps) auto
  qed
qed

lemma seg_loop_chain:
  "chain 0 spans s \<Longrightarrow> s \<le> k \<Longrightarrow> s \<le> length tokens \<Longrightarrow>
   seg_loop tokens s k spans = (s', spans') \<Longrightarrow>
     chain 0 spans' s' \<and> s' \<le> length tokens"
proof (induction tokens s k spans rule: seg_loop.induct)
  case (1 tokens s k spans)
  show ?case
  proof (cases "k < length tokens")
    case False
    then show ?thesis using "1.prems" by (simp add: seg_loop.simps)
  next
    case k: True
    let ?t = "tokens ! k"
    show ?thesis
    proof (cases "has_flag (t_flags ?t) TF_SENT_END_STRONG")
      case True
      let ?e = "extend_weak tokens k (k + 1)"
      have ge: "k \<le> ?e" by (rule extend_weak_ge) simp
      have lt: "?e < length tokens" by (rule extend_weak_lt [OF k])
      have ch: "chain 0 (spans @ [(s, ?e + 1)]) (?e + 1)"
        using "1.prems"(1,2) ge by (intro chain_snoc) simp_all
      have eq: "seg_loop tokens (?e + 1) (?e + 1) (spans @ [(s, ?e + 1)]) = (s', spans')"
        using "1.prems"(4) k True by (subst (asm) seg_loop.simps) (simp add: Let_def)
      show ?thesis
        using "1.IH"(1) [OF k refl True refl ch _ _ eq] lt by simp
    next
      case ns: False
      show ?thesis
      proof (cases "has_flag (t_flags ?t) TF_SENT_END_WEAK \<and> t_text ?t \<in> {ELLIPSIS_CHAR, THREE_DOTS} \<and>
                 (let j = look_ahead tokens (k + 1)
                  in j \<ge> length tokens \<or> has_flag (t_flags (tokens ! j)) TF_CAP)")
        case True
        have ch: "chain 0 (spans @ [(s, k + 1)]) (k + 1)"
          using "1.prems"(1,2) by (intro chain_snoc) simp_all
        have eq: "seg_loop tokens (k + 1) (k + 1) (spans @ [(s, k + 1)]) = (s', spans')"
          using "1.prems"(4) k ns True by (subst (asm) seg_loop.simps) (simp add: Let_def)
        show ?thesis
          using "1.IH"(2) [OF k refl ns True ch _ _ eq] k by simp
      next
        case False
        have eq: "seg_loop tokens s (k + 1) spans = (s', spans')"
          using "1.prems"(4) k ns False
          by (subst (asm) seg_loop.simps) (auto simp: Let_def split: if_splits)
        show ?thesis
          using "1.IH"(3) [OF k refl ns False "1.prems"(1) _ "1.prems"(3) eq] "1.prems"(2) by simp
      qed
    qed
  qed
qed

text \<open>C4: for every token list the spans returned by \<open>segment_tokens\<close> form a chain from 0
  to the number of tokens (each span is non-empty and starts where the one before it
  ended, the first at 0, the last ending at the token count), so every token index lies
  in exactly one span; the empty token list gives the empty list of spans.\<close>

theorem segment_tokens_partition:
  "chain 0 (segment_tokens tokens) (length tokens) \<and>
   (\<forall>i < length tokens.
      \<exists>!m. m < length (segment_tokens tokens) \<and>
           fst (segment_tokens tokens ! m) \<le> i \<and> i < snd (segment_tokens tokens ! m)) \<and>
   segment_tokens [] = []"
proof -
  have c: "chain 0 (segment_tokens tokens) (length tokens)"
  proof (cases "length tokens = 0")
    case True
    then show ?thesis by (simp add: segment_tokens_def)
  next
    case False
    obtain s spans where r: "seg_loop tokens 0 0 [] = (s, spans)" by (cases "seg_loop tokens 0 0 []")
    have "chain 0 [] 0" by simp
    from seg_loop_chain [OF this _ _ r] have ch: "chain 0 spans s" and le: "s \<le> length tokens"
      by simp_all
    show ?thesis
    proof (cases "s < length tokens")
      case True
      then show ?thesis using False r chain_snoc [OF ch True]
        by (simp add: segment_tokens_def seg_finish_def)
    next
      case f: False
      then have "s = length tokens" using le by simp
      then show ?thesis using False r ch f by (simp add: segment_tokens_def seg_finish_def)
    qed
  qed
  have "\<exists>!m. m < length (segment_tokens tokens) \<and>
           fst (segment_tokens tokens ! m) \<le> i \<and> i < snd (segment_tokens tokens ! m)"
    if "i < length tokens" for i
    using chain_unique_cover [OF c _ that] by simp
  moreover have "segment_tokens [] = []" by (simp add: segment_tokens_def)
  ultimately show ?thesis using c by blast
qed

theorem segment_tokens_partition_witness:
  "segment_tokens sample_tokens = [(0, 3), (3, 4)] \<and>
   chain 0 (segment_tokens sample_tokens) 4 \<and>
   (\<exists>!m. m < length (segment_tokens sample_tokens) \<and>
         fst (segment_tokens sample_tokens ! m) \<le> 2 \<and> 2 < snd (segment_tokens sample_tokens ! m))"
proof -
  have ev: "segment_tokens sample_tokens = [(0, 3), (3, 4)]"
    by (simp add: segment_tokens_def seg_finish_def sample_tokens_def sample_token_def
        seg_loop.simps extend_weak.simps look_ahead.simps has_flag_def
        TF_SENT_END_STRONG_def TF_SENT_END_WEAK_def TF_PUNCT_def TF_CAP_def)
  have len: "length sample_tokens = 4" by (simp add: sample_tokens_def)
  from segment_tokens_partition [of sample_tokens]
  have c: "chain 0 (segment_tokens sample_tokens) 4"
    and u: "\<forall>i < 4. \<exists>!m. m < length (segment_tokens sample_tokens) \<and>
           fst (segment_tokens sample_tokens ! m) \<le> i \<and> i < snd (segment_tokens sample_tokens ! m)"
    unfolding len by blast+
  from u have "\<exists>!m. m < length (segment_tokens sample_tokens) \<and>
         fst (segment_tokens sample_tokens ! m) \<le> 2 \<and> 2 < snd (segment_tokens sample_tokens ! m)"
    by simp
  then show ?thesis using ev c by blast
qed






section \<open>Properties of the tokenizer\<close>

subsection \<open>The second pass\<close>

lemma has_flag_or: "has_flag (a OR b) f \<longleftrightarrow> has_flag a f \<or> has_flag b f"
  by (simp add: has_flag_def bit.conj_disj_distrib2 or_eq_0_iff)

lemma has_flag_consts [simp]:
  "has_flag TF_SENT_END_WEAK TF_SENT_END_WEAK" "has_flag TF_SENT_END_STRONG TF_SENT_END_STRONG"
  "\<not> has_flag TF_SENT_END_WEAK TF_SENT_END_STRONG" "\<not> has_flag TF_SENT_END_STRONG TF_SENT_END_WEAK"
  "\<not> has_flag TF_SENT_END_WEAK TF_CAP" "\<not> has_flag TF_SENT_END_WEAK TF_PUNCT"
  "\<not> has_flag TF_SENT_END_WEAK TF_NUM"
  "\<not> has_flag TF_SENT_END_STRONG TF_CAP" "\<not> has_flag TF_SENT_END_STRONG TF_PUNCT"
  "\<not> has_flag TF_SENT_END_STRONG TF_NUM"
  by (simp_all add: has_flag_def TF_CAP_def TF_PUNCT_def TF_NUM_def TF_SENT_END_STRONG_def
      TF_SENT_END_WEAK_def)

lemma evolves_refl [simp]: "evolves t t"
  by (simp add: evolves_def)

lemma evolves_trans: "evolves a b \<Longrightarrow> evolves b c \<Longrightarrow> evolves a c"
  by (auto simp: evolves_def)

lemma evolves_weak [simp]: "evolves t (t\<lparr>t_flags := t_flags t OR TF_SENT_END_WEAK\<rparr>)"
  by (simp add: evolves_def has_flag_or)

lemma evolves_strong:
  "t_text t \<in> STRONG_SET \<Longrightarrow> evolves t (t\<lparr>t_flags := t_flags t OR TF_SENT_END_STRONG\<rparr>)"
  by (simp add: evolves_def has_flag_or)

lemma all2_evolves_refl [simp]: "list_all2 evolves ts ts"
  by (simp add: list_all2_conv_all_nth)

lemma all2_evolves_trans:
  "list_all2 evolves a b \<Longrightarrow> list_all2 evolves b c \<Longrightarrow> list_all2 evolves a c"
proof -
  assume ab: "list_all2 evolves a b" and bc: "list_all2 evolves b c"
  have l: "length a = length b" "length b = length c"
    using ab bc by (simp_all add: list_all2_lengthD)
  have "evolves (a ! i) (c ! i)" if "i < length a" for i
    using that l list_all2_nthD [OF ab, of i] list_all2_nthD [OF bc, of i]
    by (auto intro: evolves_trans)
  then show ?thesis using l by (simp add: list_all2_conv_all_nth)
qed

lemma all2_evolves_update:
  "k < length ts \<Longrightarrow> evolves (ts ! k) t' \<Longrightarrow> list_all2 evolves ts (ts[k := t'])"
  by (auto simp: list_all2_conv_all_nth nth_list_update)

lemma bubble_weak_evolves: "list_all2 evolves ts (bubble_weak ts j)"
proof (induction ts j rule: bubble_weak.induct)
  case (1 tokens j)
  show ?case
  proof (cases "j < length tokens \<and> t_text (tokens ! j) \<in> CLOSERS")
    case True
    let ?ts = "tokens[j := (tokens ! j)\<lparr>t_flags := t_flags (tokens ! j) OR TF_SENT_END_WEAK\<rparr>]"
    have a: "list_all2 evolves tokens ?ts" using True by (intro all2_evolves_update) simp_all
    have b: "list_all2 evolves ?ts (bubble_weak ?ts (j + 1))" using "1.IH" True by simp
    have "bubble_weak tokens j = bubble_weak ?ts (j + 1)"
      using True by (subst bubble_weak.simps) simp
    then show ?thesis using all2_evolves_trans [OF a b] by simp
  next
    case False
    then have "bubble_weak tokens j = tokens" by (subst bubble_weak.simps) auto
    then show ?thesis by simp
  qed
qed

lemma bubble_weak_marks:
  "j \<le> m \<Longrightarrow> m < length ts \<Longrightarrow> (\<forall>q. j \<le> q \<and> q \<le> m \<longrightarrow> t_text (ts ! q) \<in> CLOSERS) \<Longrightarrow>
     has_flag (t_flags (bubble_weak ts j ! m)) TF_SENT_END_WEAK"
proof (induction ts j rule: bubble_weak.induct)
  case (1 tokens j)
  have c: "j < length tokens \<and> t_text (tokens ! j) \<in> CLOSERS" using "1.prems" by auto
  let ?ts = "tokens[j := (tokens ! j)\<lparr>t_flags := t_flags (tokens ! j) OR TF_SENT_END_WEAK\<rparr>]"
  have eq: "bubble_weak tokens j = bubble_weak ?ts (j + 1)"
    using c by (subst bubble_weak.simps) simp
  show ?case
  proof (cases "m = j")
    case True
    have "has_flag (t_flags (?ts ! j)) TF_SENT_END_WEAK" using c by (simp add: has_flag_or)
    moreover have "j < length ?ts" using c by simp
    then have "evolves (?ts ! j) (bubble_weak ?ts (j + 1) ! j)"
      by (rule list_all2_nthD [OF bubble_weak_evolves])
    ultimately show ?thesis unfolding eq True by (simp add: evolves_def)
  next
    case False
    then have "j + 1 \<le> m" using "1.prems"(1) by simp
    moreover have "m < length ?ts" using "1.prems"(2) by simp
    moreover have "\<forall>q. j + 1 \<le> q \<and> q \<le> m \<longrightarrow> t_text (?ts ! q) \<in> CLOSERS"
      using "1.prems"(2,3) by (auto simp: nth_list_update)
    ultimately show ?thesis unfolding eq using "1.IH" [OF c] by blast
  qed
qed

lemma post_step_evolves: "k < length ts \<Longrightarrow> list_all2 evolves ts (post_step kinds k ts)"
proof -
  assume k: "k < length ts"
  let ?t = "ts ! k"
  show ?thesis
  proof (cases "(kinds ! k = PUNCT \<or> kinds ! k = ELLIPSIS) \<and> t_text ?t \<in> STRONG_SET")
    case True
    let ?ts = "ts[k := ?t\<lparr>t_flags := t_flags ?t OR TF_SENT_END_STRONG\<rparr>]"
    have a: "list_all2 evolves ts ?ts"
      using k True by (intro all2_evolves_update) (simp_all add: evolves_strong)
    have "post_step kinds k ts = bubble_weak ?ts (k + 1)"
      using True by (simp add: post_step_def Let_def)
    then show ?thesis using all2_evolves_trans [OF a bubble_weak_evolves] by simp
  next
    case False
    then show ?thesis
      using k by (auto simp: post_step_def Let_def intro!: all2_evolves_update)
  qed
qed

lemma fold_post_evolves:
  "\<forall>k \<in> set ks. k < length ts \<Longrightarrow> list_all2 evolves ts (fold (post_step kinds) ks ts)"
proof (induction ks arbitrary: ts)
  case Nil
  then show ?case by simp
next
  case (Cons a ks)
  have a: "list_all2 evolves ts (post_step kinds a ts)"
    using Cons.prems by (intro post_step_evolves) simp
  then have "length (post_step kinds a ts) = length ts" by (simp add: list_all2_lengthD)
  then have "\<forall>k \<in> set ks. k < length (post_step kinds a ts)" using Cons.prems by simp
  from Cons.IH [OF this] a show ?case by (auto intro: all2_evolves_trans)
qed


lemma sets_disjoint: "x \<in> WEAK_SET \<Longrightarrow> x \<notin> STRONG_SET"
  by (auto simp: WEAK_SET_def STRONG_SET_def ELLIPSIS_CHAR_def THREE_DOTS_def)

lemma post_step_marks:
  assumes k: "k < length ts"
  shows "marked kinds ts k (post_step kinds k ts)"
proof -
  let ?t = "ts ! k"
  let ?ts = "ts[k := ?t\<lparr>t_flags := t_flags ?t OR TF_SENT_END_STRONG\<rparr>]"
  have strong: "has_flag (t_flags (post_step kinds k ts ! k)) TF_SENT_END_STRONG \<and>
        (\<forall>j. k < j \<and> j < length ts \<and> (\<forall>m. k < m \<and> m \<le> j \<longrightarrow> t_text (ts ! m) \<in> CLOSERS) \<longrightarrow>
             has_flag (t_flags (post_step kinds k ts ! j)) TF_SENT_END_WEAK)"
    if c: "kinds ! k = PUNCT \<or> kinds ! k = ELLIPSIS" and s: "t_text ?t \<in> STRONG_SET"
  proof -
    have eq: "post_step kinds k ts = bubble_weak ?ts (k + 1)"
      using c s by (simp add: post_step_def Let_def)
    have "has_flag (t_flags (?ts ! k)) TF_SENT_END_STRONG" using k by (simp add: has_flag_or)
    moreover have "k < length ?ts" using k by simp
    then have "evolves (?ts ! k) (bubble_weak ?ts (k + 1) ! k)"
      by (rule list_all2_nthD [OF bubble_weak_evolves])
    ultimately have a: "has_flag (t_flags (post_step kinds k ts ! k)) TF_SENT_END_STRONG"
      unfolding eq by (simp add: evolves_def)
    have b: "has_flag (t_flags (post_step kinds k ts ! j)) TF_SENT_END_WEAK"
      if j: "k < j \<and> j < length ts \<and> (\<forall>m. k < m \<and> m \<le> j \<longrightarrow> t_text (ts ! m) \<in> CLOSERS)" for j
    proof -
      have "k + 1 \<le> j" and "j < length ?ts" using j by simp_all
      moreover have "\<forall>q. k + 1 \<le> q \<and> q \<le> j \<longrightarrow> t_text (?ts ! q) \<in> CLOSERS"
        using j by (auto simp: nth_list_update)
      ultimately show ?thesis unfolding eq by (rule bubble_weak_marks)
    qed
    show ?thesis using a b by blast
  qed
  have weak: "has_flag (t_flags (post_step kinds k ts ! k)) TF_SENT_END_WEAK"
    if c: "kinds ! k = PUNCT \<or> kinds ! k = ELLIPSIS" and w: "t_text ?t \<in> WEAK_SET"
  proof -
    have "t_text ?t \<notin> STRONG_SET" using w by (rule sets_disjoint)
    then have "post_step kinds k ts = ts[k := ?t\<lparr>t_flags := t_flags ?t OR TF_SENT_END_WEAK\<rparr>]"
      using c w by (simp add: post_step_def Let_def)
    then show ?thesis using k by (simp add: has_flag_or)
  qed
  show ?thesis unfolding marked_def using strong weak by blast
qed

lemma marked_persists:
  assumes m: "marked kinds ts k res" and e: "list_all2 evolves res res'"
    and l: "length res = length ts" and k: "k < length ts"
  shows "marked kinds ts k res'"
proof -
  have up: "has_flag (t_flags (res' ! j)) f" 
    if "has_flag (t_flags (res ! j)) f" and "j < length ts"
      and "f = TF_SENT_END_STRONG \<or> f = TF_SENT_END_WEAK" for j f
    using that l list_all2_nthD [OF e, of j] by (auto simp: evolves_def)
  show ?thesis
    using m k unfolding marked_def by (auto intro: up)
qed

lemma marked_texts:
  assumes m: "marked kinds ts1 k res" and e: "list_all2 evolves ts ts1" and k: "k < length ts"
  shows "marked kinds ts k res"
proof -
  have l: "length ts1 = length ts" using e by (simp add: list_all2_lengthD)
  have t: "t_text (ts1 ! j) = t_text (ts ! j)" if "j < length ts" for j
    using list_all2_nthD [OF e that] by (simp add: evolves_def)
  have cl: "\<forall>m. k < m \<and> m \<le> j \<longrightarrow> t_text (ts1 ! m) \<in> CLOSERS"
    if "j < length ts" and "\<forall>m. k < m \<and> m \<le> j \<longrightarrow> t_text (ts ! m) \<in> CLOSERS" for j
    using that t by auto
  show ?thesis
    using m k cl unfolding marked_def l t [OF k] by blast
qed

lemma fold_post_marks:
  "k \<in> set ks \<Longrightarrow> \<forall>q \<in> set ks. q < length ts \<Longrightarrow>
     marked kinds ts k (fold (post_step kinds) ks ts)"
proof (induction ks arbitrary: ts)
  case Nil
  then show ?case by simp
next
  case (Cons a ks)
  let ?ts1 = "post_step kinds a ts"
  have a: "a < length ts" using Cons.prems(2) by simp
  have k: "k < length ts" using Cons.prems by auto
  have e1: "list_all2 evolves ts ?ts1" by (rule post_step_evolves [OF a])
  then have l1: "length ?ts1 = length ts" by (simp add: list_all2_lengthD)
  have rng: "\<forall>q \<in> set ks. q < length ?ts1" using Cons.prems(2) l1 by simp
  have e2: "list_all2 evolves ?ts1 (fold (post_step kinds) ks ?ts1)"
    by (rule fold_post_evolves [OF rng])
  show ?case
  proof (cases "k = a")
    case True
    have "marked kinds ts k ?ts1" unfolding True by (rule post_step_marks [OF a])
    from marked_persists [OF this e2 l1 k] show ?thesis by simp
  next
    case False
    then have "k \<in> set ks" using Cons.prems(1) by simp
    from Cons.IH [OF this rng] have "marked kinds ?ts1 k (fold (post_step kinds) ks ?ts1)" .
    from marked_texts [OF this e1 k] show ?thesis by simp
  qed
qed

subsection \<open>The first pass\<close>

lemma piece_flags_props:
  "\<not> has_flag (piece_flags U k piece) TF_SENT_END_STRONG"
  "\<not> has_flag (piece_flags U k piece) TF_SENT_END_WEAK"
  "has_flag (piece_flags U k piece) TF_PUNCT \<longleftrightarrow> k = PUNCT \<or> k = ELLIPSIS"
  "has_flag (piece_flags U k piece) TF_CAP \<longleftrightarrow>
     k = WORD \<and> any_ch (isalpha U) piece \<and> isupper U (piece ! 0)"
  by (cases k; simp add: piece_flags_def has_flag_def Let_def TF_CAP_def TF_PUNCT_def TF_NUM_def
      TF_SENT_END_STRONG_def TF_SENT_END_WEAK_def)+

lemma weak_heads: "x \<in> WEAK_SET \<Longrightarrow> x \<noteq> [] \<and> (hd x = 8230 \<or> hd x = 46) \<and> 64 \<notin> set x"
  by (auto simp: WEAK_SET_def ELLIPSIS_CHAR_def THREE_DOTS_def)

lemma match_URL_head: "match_URL U cs = Some n \<Longrightarrow> cs \<noteq> [] \<and> (hd cs = 104 \<or> hd cs = 119)"
  by (cases cs) (auto simp: match_URL_def lit_nonspace_def Let_def split: option.splits if_splits)

lemma match_HANDLE_head: "match_HANDLE cs = Some n \<Longrightarrow> cs \<noteq> [] \<and> (hd cs = 64 \<or> hd cs = 35)"
  by (cases cs) (auto simp: match_HANDLE_def split: if_splits)

lemma match_EMAIL_at:
  "match_EMAIL cs = Some n \<Longrightarrow> \<exists>l. l < n \<and> l < length cs \<and> cs ! l = 64"
proof -
  assume a: "match_EMAIL cs = Some n"
  let ?l = "length (takeWhile in_email_local cs)"
  from a obtain rest m where d: "drop ?l cs = 64 # rest" and n: "n = ?l + 1 + m"
    by (auto simp: match_EMAIL_def Let_def split: if_splits list.splits option.splits)
  from drop_eq_ConsD [OF d] have "?l < length cs" and "cs ! ?l = 64" by simp_all
  then show ?thesis using n by (intro exI [of _ ?l]) simp
qed

lemma match_ELLIPSIS_weak:
  assumes "take n cs \<in> WEAK_SET"
  shows "\<exists>e. match_ELLIPSIS cs = Some e"
proof -
  from assms consider "take n cs = [8230]" | "take n cs = [46, 46, 46]"
    by (auto simp: WEAK_SET_def ELLIPSIS_CHAR_def THREE_DOTS_def)
  then show ?thesis
  proof cases
    case 1
    then have "take 1 (take n cs) = [8230]" by simp
    moreover have "0 < n" using 1 by (cases n) auto
    ultimately have "take 1 cs = [8230]" by (simp add: min_def)
    then show ?thesis by (simp add: match_ELLIPSIS_def)
  next
    case 2
    then have "length (take n cs) = 3" by simp
    then have "3 \<le> n" by (simp add: min_def split: if_splits)
    moreover have "take 3 (take n cs) = [46, 46, 46]" using 2 by simp
    ultimately have "take 3 cs = [46, 46, 46]" by (simp add: min_def)
    then show ?thesis by (simp add: match_ELLIPSIS_def)
  qed
qed

lemma match_master_weak:
  assumes m: "match_master U cs = Some (k, n)" and w: "take n cs \<in> WEAK_SET"
  shows "k = ELLIPSIS"
proof -
  from weak_heads [OF w] have ne: "take n cs \<noteq> []"
    and hd: "hd (take n cs) = 8230 \<or> hd (take n cs) = 46" and at: "64 \<notin> set (take n cs)"
    by blast+
  from ne have n0: "0 < n" and cne: "cs \<noteq> []" by (cases n; auto)+
  have "hd (take n cs) = hd cs" using n0 cne by (cases cs; cases n) auto
  then have hd': "hd cs = 8230 \<or> hd cs = 46" using hd by simp
  have u: "match_URL U cs = None"
    using match_URL_head [of U cs] hd' by (cases "match_URL U cs") auto
  have h: "match_HANDLE cs = None"
    using match_HANDLE_head [of cs] hd' by (cases "match_HANDLE cs") auto
  obtain e where el: "match_ELLIPSIS cs = Some e" using match_ELLIPSIS_weak [OF w] by blast
  show ?thesis
  proof (cases "match_EMAIL cs")
    case None
    then show ?thesis using m u h el by (simp add: match_master_def)
  next
    case (Some x)
    then have "n = x" and "k = EMAIL" using m u by (simp_all add: match_master_def)
    with match_EMAIL_at [OF Some] obtain l where l: "l < n" "l < length cs" "cs ! l = 64"
      by blast
    then have "take n cs ! l = 64" and "l < length (take n cs)" by simp_all
    then have "64 \<in> set (take n cs)" by (metis nth_mem)
    then show ?thesis using at by simp
  qed
qed

lemma match_master_none_weak: "match_master U cs = None \<Longrightarrow> cs \<notin> WEAK_SET"
proof
  assume n: "match_master U cs = None" and w: "cs \<in> WEAK_SET"
  then have "take (length cs) cs \<in> WEAK_SET" by simp
  from match_ELLIPSIS_weak [OF this] obtain e where "match_ELLIPSIS cs = Some e" by blast
  then show False using n by (simp add: match_master_def split: option.splits)
qed

lemma finditer_elems:
  "cs = drop p txt \<Longrightarrow> (k, s, e) \<in> set (finditer U p cs) \<Longrightarrow>
     s < e \<and> match_master U (drop s txt) = Some (k, e - s)"
proof (induction U p cs rule: finditer.induct)
  case (1 U p cs)
  show ?case
  proof (cases "cs = []")
    case True
    then show ?thesis using "1.prems"(2) by (simp add: finditer.simps)
  next
    case ne: False
    show ?thesis
    proof (cases "match_master U cs")
      case None
      then have eq: "finditer U p cs = finditer U (p + 1) (drop 1 cs)"
        using ne by (subst finditer.simps) simp
      have "drop 1 cs = drop (p + 1) txt" using "1.prems"(1) by simp
      from "1.IH"(1) [OF ne None this] "1.prems"(2) eq show ?thesis by simp
    next
      case (Some x)
      obtain k' n where x: "x = (k', n)" by (cases x)
      have eq: "finditer U p cs = (k', p, p + n) # finditer U (p + n) (drop n cs)"
        using ne Some x by (subst finditer.simps) simp
      have d: "drop n cs = drop (p + n) txt" using "1.prems"(1) by (simp add: add.commute)
      have pos: "0 < n" using match_master_pos Some x by blast
      show ?thesis
      proof (cases "(k, s, e) = (k', p, p + n)")
        case True
        then show ?thesis using Some x pos "1.prems"(1) by simp
      next
        case False
        then have "(k, s, e) \<in> set (finditer U (p + n) (drop n cs))"
          using "1.prems"(2) eq by auto
        from "1.IH"(2) [OF ne Some x [symmetric] d this] show ?thesis .
      qed
    qed
  qed
qed

lemma finditer_rest:
  "cs = drop p txt \<Longrightarrow> last_end p (finditer U p cs) < length txt \<Longrightarrow>
     match_master U (drop (last_end p (finditer U p cs)) txt) = None"
proof (induction U p cs rule: finditer.induct)
  case (1 U p cs)
  show ?case
  proof (cases "cs = []")
    case True
    then have "finditer U p cs = []" by (simp add: finditer.simps)
    then have "last_end p (finditer U p cs) = p" by (simp add: last_end_def)
    moreover have "length txt \<le> p" using True "1.prems"(1) by simp
    ultimately show ?thesis using "1.prems"(2) by simp
  next
    case ne: False
    show ?thesis
    proof (cases "match_master U cs")
      case None
      then have eq: "finditer U p cs = finditer U (p + 1) (drop 1 cs)"
        using ne by (subst finditer.simps) simp
      have d: "drop 1 cs = drop (p + 1) txt" using "1.prems"(1) by simp
      show ?thesis
      proof (cases "finditer U (p + 1) (drop 1 cs) = []")
        case True
        then have "last_end p (finditer U p cs) = p" using eq by (simp add: last_end_def)
        then show ?thesis using None "1.prems"(1) by simp
      next
        case False
        then have le: "last_end p (finditer U p cs)
                        = last_end (p + 1) (finditer U (p + 1) (drop 1 cs))"
          using eq by (simp add: last_end_def)
        from "1.IH"(1) [OF ne None d] "1.prems"(2) show ?thesis unfolding le by simp
      qed
    next
      case (Some x)
      obtain k' n where x: "x = (k', n)" by (cases x)
      have eq: "finditer U p cs = (k', p, p + n) # finditer U (p + n) (drop n cs)"
        using ne Some x by (subst finditer.simps) simp
      have d: "drop n cs = drop (p + n) txt" using "1.prems"(1) by (simp add: add.commute)
      have le: "last_end p (finditer U p cs)
                  = last_end (p + n) (finditer U (p + n) (drop n cs))"
        unfolding eq by (simp add: last_end_def)
      from "1.IH"(2) [OF ne Some x [symmetric] d] "1.prems"(2) show ?thesis unfolding le by simp
    qed
  qed
qed

lemma last_end_Cons: "last_end i ((k, s, e) # ms) = last_end e ms"
  by (simp add: last_end_def)

lemma first_pass_token_inv:
  assumes "match_master U (drop s text) = Some (k, e - s)"
  shows "tok_inv U \<lparr>t_idx = x, t_text = take (e - s) (drop s text), t_start = y, t_end = z,
                     t_flags = piece_flags U k (take (e - s) (drop s text))\<rparr> k"
  using match_master_weak [OF assms]
  by (auto simp: tok_inv_def piece_flags_props)

lemma first_pass_inv:
  assumes "\<forall>m \<in> set ms. case m of (k, s, e) \<Rightarrow>
             s < e \<and> match_master U (drop s text) = Some (k, e - s)"
    and "list_all2 (tok_inv U) tokens kinds"
  shows "\<exists>tokens' kinds' idx'.
           fold (first_pass_step U text) ms (tokens, kinds, i, idx)
             = (tokens', kinds', last_end i ms, idx') \<and>
           list_all2 (tok_inv U) tokens' kinds'"
  using assms
proof (induction ms arbitrary: tokens kinds i idx)
  case Nil
  then show ?case by (simp add: last_end_def)
next
  case (Cons m ms)
  obtain k s e where m: "m = (k, s, e)" by (cases m)
  have mm: "match_master U (drop s text) = Some (k, e - s)" using Cons.prems(1) m by simp
  have rest: "\<forall>m \<in> set ms. case m of (k, s, e) \<Rightarrow>
             s < e \<and> match_master U (drop s text) = Some (k, e - s)"
    using Cons.prems(1) by simp
  show ?case
  proof (cases "k = WS")
    case True
    then have "first_pass_step U text m (tokens, kinds, i, idx) = (tokens, kinds, e, idx)"
      by (simp add: first_pass_step_def m)
    then show ?thesis
      using Cons.IH [OF rest Cons.prems(2), of e idx] by (simp add: m last_end_Cons)
  next
    case False
    let ?t = "\<lparr>t_idx = int idx, t_text = take (e - s) (drop s text), t_start = int s,
               t_end = int e, t_flags = piece_flags U k (take (e - s) (drop s text))\<rparr>"
    have st: "first_pass_step U text m (tokens, kinds, i, idx)
                = (tokens @ [?t], kinds @ [k], e, idx + 1)"
      using False by (simp add: first_pass_step_def m Let_def)
    have "tok_inv U ?t k" by (rule first_pass_token_inv [OF mm])
    then have "list_all2 (tok_inv U) (tokens @ [?t]) (kinds @ [k])"
      using Cons.prems(2) by (simp add: list_all2_appendI)
    from Cons.IH [OF rest this, of e "idx + 1"] show ?thesis
      using st by (simp add: m last_end_Cons)
  qed
qed

lemma zero_flags [simp]:
  "\<not> has_flag 0 f" "has_flag TF_CAP TF_CAP" "\<not> has_flag TF_NUM TF_CAP"
  "\<not> has_flag TF_NUM TF_PUNCT" "\<not> has_flag TF_CAP TF_PUNCT"
  "\<not> has_flag TF_NUM TF_SENT_END_STRONG" "\<not> has_flag TF_CAP TF_SENT_END_STRONG"
  "\<not> has_flag TF_NUM TF_SENT_END_WEAK" "\<not> has_flag TF_CAP TF_SENT_END_WEAK"
  by (simp_all add: has_flag_def TF_CAP_def TF_PUNCT_def TF_NUM_def TF_SENT_END_STRONG_def
      TF_SENT_END_WEAK_def)

lemma fallback_inv:
  assumes "list_all2 (tok_inv U) tokens kinds"
    and "i < length text \<longrightarrow> match_master U (drop i text) = None"
  shows "list_all2 (tok_inv U) (fst (fallback U text (tokens, kinds, i, idx)))
                               (snd (fallback U text (tokens, kinds, i, idx)))"
proof (cases "i < length text")
  case False
  then show ?thesis using assms(1) by (simp add: fallback_def)
next
  case True
  then have nw: "drop i text \<notin> WEAK_SET" using assms(2) match_master_none_weak by blast
  have ne: "drop i text \<noteq> []" using True by simp
  let ?p = "drop i text"
  let ?f = "(let flags = 0;
                 flags = (if any_ch (isdigit U) ?p then flags OR TF_NUM else flags);
                 flags = (if ?p \<noteq> [] \<and> any_ch (isalpha U) ?p \<and> isupper U (?p ! 0)
                          then flags OR TF_CAP else flags)
             in flags)"
  let ?t = "\<lparr>t_idx = int idx, t_text = ?p, t_start = int i, t_end = int (length text),
             t_flags = ?f\<rparr>"
  have "tok_inv U ?t WORD"
    using nw ne by (auto simp: tok_inv_def Let_def has_flag_or)
  moreover have "fallback U text (tokens, kinds, i, idx) = (tokens @ [?t], kinds @ [WORD])"
    using True by (simp add: fallback_def Let_def)
  ultimately show ?thesis using assms(1) by (simp add: list_all2_appendI)
qed

lemma tokenize_kinds_inv:
  assumes "tokenize_kinds U text = (toks, kinds)"
  shows "\<exists>tokens0. list_all2 (tok_inv U) tokens0 kinds \<and> list_all2 evolves tokens0 toks \<and>
           (\<forall>k < length toks. marked kinds tokens0 k toks)"
proof -
  let ?ms = "finditer U 0 text"
  have el: "\<forall>m \<in> set ?ms. case m of (k, s, e) \<Rightarrow>
             s < e \<and> match_master U (drop s text) = Some (k, e - s)"
  proof
    fix m assume mem: "m \<in> set ?ms"
    obtain k s e where m: "m = (k, s, e)" by (cases m)
    have d: "text = drop 0 text" by simp
    from finditer_elems [OF d mem [unfolded m]] show "case m of (k, s, e) \<Rightarrow>
             s < e \<and> match_master U (drop s text) = Some (k, e - s)"
      by (simp add: m)
  qed
  have "list_all2 (tok_inv U) [] []" by simp
  from first_pass_inv [OF el this, of 0 0] obtain tokens' kinds' idx' where
    f: "fold (first_pass_step U text) ?ms ([], [], 0, 0) = (tokens', kinds', last_end 0 ?ms, idx')"
    and inv': "list_all2 (tok_inv U) tokens' kinds'"
    by blast
  have r: "last_end 0 ?ms < length text \<longrightarrow> match_master U (drop (last_end 0 ?ms) text) = None"
  proof -
    have d: "text = drop 0 text" by simp
    show ?thesis using finditer_rest [OF d] by blast
  qed
  define fb where "fb = fallback U text (tokens', kinds', last_end 0 ?ms, idx')"
  have inv0: "list_all2 (tok_inv U) (fst fb) (snd fb)"
    unfolding fb_def by (rule fallback_inv [OF inv' r])
  have tk: "tokenize_kinds U text = (fold (post_step (snd fb)) [0..<length (fst fb)] (fst fb), snd fb)"
    by (simp add: tokenize_kinds_def f fb_def Let_def split: prod.splits)
  then have kinds: "kinds = snd fb" and toks: "toks = fold (post_step kinds) [0..<length (fst fb)] (fst fb)"
    using assms by simp_all
  have rng: "\<forall>k \<in> set [0..<length (fst fb)]. k < length (fst fb)" by simp
  have ev: "list_all2 evolves (fst fb) toks" unfolding toks by (rule fold_post_evolves [OF rng])
  then have len: "length toks = length (fst fb)" by (simp add: list_all2_lengthD)
  have "marked kinds (fst fb) k toks" if "k < length toks" for k
    unfolding toks using that len by (intro fold_post_marks [OF _ rng]) simp
  then show ?thesis using inv0 ev kinds by blast
qed

subsection \<open>The flags of the tokens\<close>

lemmas tok_eval = tokenize_def tokenize_kinds_def finditer.simps match_master_def match_URL_def
  lit_nonspace_def match_EMAIL_def match_HANDLE_def match_ELLIPSIS_def match_WORD_def
  match_PUNCT_def match_WS_def word_tail.simps first_pass_step_def fallback_def piece_flags_def
  any_ch_def post_step_def bubble_weak.simps ascii_tables_def is_AZaz09_def is_AZaz_def
  in_email_local_def in_email_domain_def in_handle_def is_joiner_def in_PUNCT_def
  STRONG_SET_def WEAK_SET_def CLOSERS_def ELLIPSIS_CHAR_def THREE_DOTS_def
  TF_CAP_def TF_PUNCT_def TF_NUM_def TF_SENT_END_STRONG_def TF_SENT_END_WEAK_def Let_def


lemma tokenize_okay:
  "tokenize_kinds ascii_tables okay_text =
     ([\<lparr>t_idx = 0, t_text = [79, 107, 97, 121], t_start = 0, t_end = 4, t_flags = 1\<rparr>,
       \<lparr>t_idx = 1, t_text = [46, 46, 46], t_start = 4, t_end = 7, t_flags = 18\<rparr>,
       \<lparr>t_idx = 2, t_text = [73], t_start = 8, t_end = 9, t_flags = 1\<rparr>,
       \<lparr>t_idx = 3, t_text = [103, 117, 101, 115, 115], t_start = 10, t_end = 15,
          t_flags = 0\<rparr>],
      [WORD, ELLIPSIS, WORD, WORD])"
  by (simp add: okay_text_def tok_eval)

lemma tokenize_quoted:
  "tokenize_kinds ascii_tables quoted_text =
     ([\<lparr>t_idx = 0, t_text = [71, 111], t_start = 0, t_end = 2, t_flags = 1\<rparr>,
       \<lparr>t_idx = 1, t_text = [46], t_start = 2, t_end = 3, t_flags = 10\<rparr>,
       \<lparr>t_idx = 2, t_text = [34], t_start = 3, t_end = 4, t_flags = 18\<rparr>,
       \<lparr>t_idx = 3, t_text = [41], t_start = 4, t_end = 5, t_flags = 18\<rparr>,
       \<lparr>t_idx = 4, t_text = [120], t_start = 6, t_end = 7, t_flags = 0\<rparr>],
      [WORD, PUNCT, PUNCT, PUNCT, WORD])"
  by (simp add: quoted_text_def tok_eval)


text \<open>C7 (the code at the failing input): in \<open>a$b\<close> the dollar sign matches no
  alternative and is followed by a match, so \<open>finditer\<close> steps over it and the fallback,
  which only looks behind the last match, never sees it: the tokens are \<open>a\<close> at [0, 1)
  and \<open>b\<close> at [2, 3), and the character at index 1, which is no whitespace, lies in the
  span of no token.\<close>

theorem tokenize_skips_unmatched:
  "tokenize ascii_tables [97, 36, 98] =
     [\<lparr>t_idx = 0, t_text = [97], t_start = 0, t_end = 1, t_flags = 0\<rparr>,
      \<lparr>t_idx = 1, t_text = [98], t_start = 2, t_end = 3, t_flags = 0\<rparr>] \<and>
   \<not> isspace ascii_tables 36 \<and>
   match_master ascii_tables [36, 98] = None"
  by (simp add: tok_eval)

text \<open>C8 (as stated, refuted): \<open>A@b.co\<close> is one token of the e-mail alternative; its
  first character is an uppercase letter and it contains letters, and its flags are 0: the
  capitalized flag is not set.\<close>

theorem email_not_capitalized:
  "tokenize ascii_tables [65, 64, 98, 46, 99, 111] =
     [\<lparr>t_idx = 0, t_text = [65, 64, 98, 46, 99, 111], t_start = 0, t_end = 6, t_flags = 0\<rparr>] \<and>
   isupper ascii_tables 65 \<and> any_ch (isalpha ascii_tables) [65, 64, 98, 46, 99, 111] \<and>
   \<not> has_flag 0 TF_CAP"
  by (simp add: tok_eval has_flag_def)

lemma tokenize_parts:
  obtains toks kinds tokens0 where "tokenize_kinds U txt = (toks, kinds)"
    and "tokenize U txt = toks"
    and "list_all2 (tok_inv U) tokens0 kinds" and "list_all2 evolves tokens0 toks"
    and "\<forall>k < length toks. marked kinds tokens0 k toks"
proof -
  obtain toks kinds where tk: "tokenize_kinds U txt = (toks, kinds)"
    by (cases "tokenize_kinds U txt")
  from tokenize_kinds_inv [OF tk] obtain tokens0 where
    "list_all2 (tok_inv U) tokens0 kinds" "list_all2 evolves tokens0 toks"
    "\<forall>k < length toks. marked kinds tokens0 k toks" by blast
  then show ?thesis using that [OF tk] tk by (simp add: tokenize_def)
qed

text \<open>C8 (amended): a token of \<open>tokenize\<close> carries the capitalized flag if and only if
  it comes from the word alternative or is the fallback token (the two cases the code
  records as kind WORD), its text contains at least one letter and its first character is
  uppercase; a token of the URL, e-mail, handle, punctuation or ellipsis alternative never
  carries it.\<close>

theorem capitalized_flag_by_kind:
  "length (snd (tokenize_kinds U txt)) = length (tokenize U txt) \<and>
   (\<forall>k < length (tokenize U txt).
      has_flag (t_flags (tokenize U txt ! k)) TF_CAP \<longleftrightarrow>
        snd (tokenize_kinds U txt) ! k = WORD \<and>
        any_ch (isalpha U) (t_text (tokenize U txt ! k)) \<and>
        isupper U (t_text (tokenize U txt ! k) ! 0))"
proof -
  obtain toks kinds tokens0 where tk: "tokenize_kinds U txt = (toks, kinds)"
    and t: "tokenize U txt = toks"
    and inv: "list_all2 (tok_inv U) tokens0 kinds" and ev: "list_all2 evolves tokens0 toks"
    using tokenize_parts [of U "txt"] by metis
  have l1: "length tokens0 = length kinds" by (rule list_all2_lengthD [OF inv])
  have l2: "length tokens0 = length toks" by (rule list_all2_lengthD [OF ev])
  note l = l1 [symmetric] l2 [symmetric]
  have "has_flag (t_flags (toks ! k)) TF_CAP \<longleftrightarrow>
        kinds ! k = WORD \<and> any_ch (isalpha U) (t_text (toks ! k)) \<and> isupper U (t_text (toks ! k) ! 0)"
    if "k < length toks" for k
  proof -
    have k: "k < length tokens0" using that l by simp
    from list_all2_nthD [OF inv k] list_all2_nthD [OF ev k] show ?thesis
      by (simp add: tok_inv_def evolves_def)
  qed
  moreover have "length kinds = length toks" using l by simp
  ultimately show ?thesis by (simp add: t tk)
qed

theorem capitalized_flag_by_kind_witness:
  "has_flag (t_flags (tokenize ascii_tables okay_text ! 2)) TF_CAP \<and>
   snd (tokenize_kinds ascii_tables okay_text) ! 2 = WORD \<and>
   \<not> has_flag (t_flags (tokenize ascii_tables okay_text ! 1)) TF_CAP"
proof -
  have len: "length (tokenize ascii_tables okay_text) = 4"
    by (simp add: tokenize_def tokenize_okay)
  from capitalized_flag_by_kind [of ascii_tables okay_text]
  have all: "\<forall>k < 4. has_flag (t_flags (tokenize ascii_tables okay_text ! k)) TF_CAP \<longleftrightarrow>
        snd (tokenize_kinds ascii_tables okay_text) ! k = WORD \<and>
        any_ch (isalpha ascii_tables) (t_text (tokenize ascii_tables okay_text ! k)) \<and>
        isupper ascii_tables (t_text (tokenize ascii_tables okay_text ! k) ! 0)"
    unfolding len by blast
  from all have "(2::nat) < 4 \<longrightarrow> (has_flag (t_flags (tokenize ascii_tables okay_text ! 2)) TF_CAP \<longleftrightarrow>
        snd (tokenize_kinds ascii_tables okay_text) ! 2 = WORD \<and>
        any_ch (isalpha ascii_tables) (t_text (tokenize ascii_tables okay_text ! 2)) \<and>
        isupper ascii_tables (t_text (tokenize ascii_tables okay_text ! 2) ! 0))" by (rule spec)
  then have a: "has_flag (t_flags (tokenize ascii_tables okay_text ! 2)) TF_CAP"
    unfolding tokenize_def tokenize_okay by (simp add: any_ch_def ascii_tables_def)
  from all have "(1::nat) < 4 \<longrightarrow> (has_flag (t_flags (tokenize ascii_tables okay_text ! 1)) TF_CAP \<longleftrightarrow>
        snd (tokenize_kinds ascii_tables okay_text) ! 1 = WORD \<and>
        any_ch (isalpha ascii_tables) (t_text (tokenize ascii_tables okay_text ! 1)) \<and>
        isupper ascii_tables (t_text (tokenize ascii_tables okay_text ! 1) ! 0))" by (rule spec)
  then have b: "\<not> has_flag (t_flags (tokenize ascii_tables okay_text ! 1)) TF_CAP"
    unfolding tokenize_def tokenize_okay by simp
  have c: "snd (tokenize_kinds ascii_tables okay_text) ! 2 = WORD" by (simp add: tokenize_okay)
  show ?thesis using a b c by blast
qed

text \<open>C6: in the result of \<open>tokenize\<close>, every punctuation token whose text is
  \<open>.\<close>, \<open>?\<close> or \<open>!\<close> has the strong-end flag, and every token after it up to which all
  texts are in the closer set has the weak-end flag; every token whose text is an ellipsis
  (U+2026 or three full stops) has the weak-end flag and not the strong-end flag.\<close>

theorem sentence_end_flags:
  "\<forall>k < length (tokenize U txt).
     (has_flag (t_flags (tokenize U txt ! k)) TF_PUNCT \<and> t_text (tokenize U txt ! k) \<in> STRONG_SET \<longrightarrow>
        has_flag (t_flags (tokenize U txt ! k)) TF_SENT_END_STRONG \<and>
        (\<forall>j. k < j \<and> j < length (tokenize U txt) \<and>
             (\<forall>m. k < m \<and> m \<le> j \<longrightarrow> t_text (tokenize U txt ! m) \<in> CLOSERS) \<longrightarrow>
             has_flag (t_flags (tokenize U txt ! j)) TF_SENT_END_WEAK)) \<and>
     (t_text (tokenize U txt ! k) \<in> WEAK_SET \<longrightarrow>
        has_flag (t_flags (tokenize U txt ! k)) TF_SENT_END_WEAK \<and>
        \<not> has_flag (t_flags (tokenize U txt ! k)) TF_SENT_END_STRONG)"
proof -
  obtain toks kinds tokens0 where tk: "tokenize_kinds U txt = (toks, kinds)"
    and t: "tokenize U txt = toks"
    and inv: "list_all2 (tok_inv U) tokens0 kinds" and ev: "list_all2 evolves tokens0 toks"
    and mk: "\<forall>k < length toks. marked kinds tokens0 k toks"
    using tokenize_parts [of U "txt"] by metis
  have l2: "length tokens0 = length toks" by (rule list_all2_lengthD [OF ev])
  have tx: "t_text (tokens0 ! m) = t_text (toks ! m)" if "m < length toks" for m
    using list_all2_nthD [OF ev, of m] that l2 by (simp add: evolves_def)
  have main: "(has_flag (t_flags (toks ! k)) TF_PUNCT \<and> t_text (toks ! k) \<in> STRONG_SET \<longrightarrow>
        has_flag (t_flags (toks ! k)) TF_SENT_END_STRONG \<and>
        (\<forall>j. k < j \<and> j < length toks \<and>
             (\<forall>m. k < m \<and> m \<le> j \<longrightarrow> t_text (toks ! m) \<in> CLOSERS) \<longrightarrow>
             has_flag (t_flags (toks ! j)) TF_SENT_END_WEAK)) \<and>
     (t_text (toks ! k) \<in> WEAK_SET \<longrightarrow>
        has_flag (t_flags (toks ! k)) TF_SENT_END_WEAK \<and>
        \<not> has_flag (t_flags (toks ! k)) TF_SENT_END_STRONG)"
    if k: "k < length toks" for k
  proof -
    have k0: "k < length tokens0" using k l2 by simp
    have i: "tok_inv U (tokens0 ! k) (kinds ! k)" by (rule list_all2_nthD [OF inv k0])
    have e: "evolves (tokens0 ! k) (toks ! k)" by (rule list_all2_nthD [OF ev k0])
    have m: "marked kinds tokens0 k toks" using mk k by blast
    have strong: "has_flag (t_flags (toks ! k)) TF_SENT_END_STRONG \<and>
        (\<forall>j. k < j \<and> j < length toks \<and>
             (\<forall>m. k < m \<and> m \<le> j \<longrightarrow> t_text (toks ! m) \<in> CLOSERS) \<longrightarrow>
             has_flag (t_flags (toks ! j)) TF_SENT_END_WEAK)"
      if p: "has_flag (t_flags (toks ! k)) TF_PUNCT" and s: "t_text (toks ! k) \<in> STRONG_SET"
    proof -
      have kd: "kinds ! k = PUNCT \<or> kinds ! k = ELLIPSIS"
        using p i e by (simp add: tok_inv_def evolves_def)
      have s0: "t_text (tokens0 ! k) \<in> STRONG_SET" using s tx [OF k] by simp
      from m kd s0 have a: "has_flag (t_flags (toks ! k)) TF_SENT_END_STRONG"
        and b: "\<forall>j. k < j \<and> j < length tokens0 \<and>
                 (\<forall>m. k < m \<and> m \<le> j \<longrightarrow> t_text (tokens0 ! m) \<in> CLOSERS) \<longrightarrow>
                 has_flag (t_flags (toks ! j)) TF_SENT_END_WEAK"
        unfolding marked_def by blast+
      have "has_flag (t_flags (toks ! j)) TF_SENT_END_WEAK"
        if j: "k < j \<and> j < length toks \<and> (\<forall>m. k < m \<and> m \<le> j \<longrightarrow> t_text (toks ! m) \<in> CLOSERS)"
        for j
      proof -
        have "\<forall>m. k < m \<and> m \<le> j \<longrightarrow> t_text (tokens0 ! m) \<in> CLOSERS"
          using j tx by auto
        then show ?thesis using b j l2 by simp
      qed
      then show ?thesis using a by blast
    qed
    have weak: "has_flag (t_flags (toks ! k)) TF_SENT_END_WEAK \<and>
        \<not> has_flag (t_flags (toks ! k)) TF_SENT_END_STRONG"
      if w: "t_text (toks ! k) \<in> WEAK_SET"
    proof -
      have w0: "t_text (tokens0 ! k) \<in> WEAK_SET" using w tx [OF k] by simp
      then have kd: "kinds ! k = ELLIPSIS" using i by (simp add: tok_inv_def)
      from m kd w0 have a: "has_flag (t_flags (toks ! k)) TF_SENT_END_WEAK"
        unfolding marked_def by blast
      have "t_text (tokens0 ! k) \<notin> STRONG_SET" using w0 by (rule sets_disjoint)
      moreover have "\<not> has_flag (t_flags (tokens0 ! k)) TF_SENT_END_STRONG"
        using i by (simp add: tok_inv_def)
      ultimately have "\<not> has_flag (t_flags (toks ! k)) TF_SENT_END_STRONG"
        using e by (auto simp: evolves_def)
      then show ?thesis using a by blast
    qed
    show ?thesis using strong weak by blast
  qed
  show ?thesis unfolding t using main by blast
qed

lemma tokenize_okay_toks:
  "tokenize ascii_tables okay_text =
     [\<lparr>t_idx = 0, t_text = [79, 107, 97, 121], t_start = 0, t_end = 4, t_flags = 1\<rparr>,
       \<lparr>t_idx = 1, t_text = [46, 46, 46], t_start = 4, t_end = 7, t_flags = 18\<rparr>,
       \<lparr>t_idx = 2, t_text = [73], t_start = 8, t_end = 9, t_flags = 1\<rparr>,
       \<lparr>t_idx = 3, t_text = [103, 117, 101, 115, 115], t_start = 10, t_end = 15,
          t_flags = 0\<rparr>]"
  by (simp add: tokenize_def tokenize_okay)

lemma tokenize_quoted_toks:
  "tokenize ascii_tables quoted_text =
     [\<lparr>t_idx = 0, t_text = [71, 111], t_start = 0, t_end = 2, t_flags = 1\<rparr>,
       \<lparr>t_idx = 1, t_text = [46], t_start = 2, t_end = 3, t_flags = 10\<rparr>,
       \<lparr>t_idx = 2, t_text = [34], t_start = 3, t_end = 4, t_flags = 18\<rparr>,
       \<lparr>t_idx = 3, t_text = [41], t_start = 4, t_end = 5, t_flags = 18\<rparr>,
       \<lparr>t_idx = 4, t_text = [120], t_start = 6, t_end = 7, t_flags = 0\<rparr>]"
  by (simp add: tokenize_def tokenize_quoted)

theorem sentence_end_flags_witness:
  "has_flag (t_flags (tokenize ascii_tables quoted_text ! 1)) TF_SENT_END_STRONG \<and>
   has_flag (t_flags (tokenize ascii_tables quoted_text ! 3)) TF_SENT_END_WEAK \<and>
   has_flag (t_flags (tokenize ascii_tables okay_text ! 1)) TF_SENT_END_WEAK \<and>
   \<not> has_flag (t_flags (tokenize ascii_tables okay_text ! 1)) TF_SENT_END_STRONG"
proof -
  let ?q = "tokenize ascii_tables quoted_text"
  let ?o = "tokenize ascii_tables okay_text"
  have lq: "(1::nat) < length ?q" by (simp add: tokenize_quoted_toks)
  have pq: "has_flag (t_flags (?q ! 1)) TF_PUNCT \<and> t_text (?q ! 1) \<in> STRONG_SET"
    by (simp add: tokenize_quoted_toks has_flag_def TF_PUNCT_def STRONG_SET_def)
  have cl: "1 < (3::nat) \<and> 3 < length ?q \<and> (\<forall>m. 1 < m \<and> m \<le> 3 \<longrightarrow> t_text (?q ! m) \<in> CLOSERS)"
  proof -
    have c2: "t_text (?q ! 2) \<in> CLOSERS" and c3: "t_text (?q ! 3) \<in> CLOSERS"
      by (simp_all add: tokenize_quoted_toks CLOSERS_def)
    have "t_text (?q ! m) \<in> CLOSERS" if "1 < m \<and> m \<le> 3" for m :: nat
    proof -
      from that have "m = 2 \<or> m = 3" by arith
      then show ?thesis using c2 c3 by blast
    qed
    moreover have "3 < length ?q" by (simp add: tokenize_quoted_toks)
    ultimately show ?thesis by simp
  qed
  from sentence_end_flags [of ascii_tables quoted_text] lq pq
  have a: "has_flag (t_flags (?q ! 1)) TF_SENT_END_STRONG"
    and b: "\<forall>j. 1 < j \<and> j < length ?q \<and> (\<forall>m. 1 < m \<and> m \<le> j \<longrightarrow> t_text (?q ! m) \<in> CLOSERS) \<longrightarrow>
             has_flag (t_flags (?q ! j)) TF_SENT_END_WEAK"
    by blast+
  from b cl have c: "has_flag (t_flags (?q ! 3)) TF_SENT_END_WEAK" by blast
  have lo: "(1::nat) < length ?o" by (simp add: tokenize_okay_toks)
  have wo: "t_text (?o ! 1) \<in> WEAK_SET"
    by (simp add: tokenize_okay_toks WEAK_SET_def THREE_DOTS_def)
  from sentence_end_flags [of ascii_tables okay_text] lo wo
  have d: "has_flag (t_flags (?o ! 1)) TF_SENT_END_WEAK \<and>
           \<not> has_flag (t_flags (?o ! 1)) TF_SENT_END_STRONG"
    by blast
  show ?thesis using a c d by blast
qed


section \<open>The ellipsis rule of the segmenter\<close>



section \<open>Properties of the annotation pass\<close>


lemma same_frame_refl [simp]: "same_frame a a"
  by (simp add: same_frame_def)








end
